theory Spec2Isabelle
  imports Complex_Main "HOL-Library.Multiset"
begin

section \<open>JavaScript numbers\<close>

text \<open>
  Every numeric field of odds.js holds a JavaScript number, an IEEE 754 double. A number is
  modelled as a finite value, as one of the two infinities, or as NaN. A finite value is
  the rational it stands for, and every arithmetic operator rounds its exact result to the
  nearest double, ties to the even mantissa, with gradual underflow and with overflow to
  an infinity. Only the sign of zero is left out: the single zero stands for +0 (no
  expression of odds.js divides by a zero).
\<close>

datatype jsnum = Fin rat | PosInf | NegInf | NaN

text \<open>Unary minus.\<close>

fun js_neg :: "jsnum \<Rightarrow> jsnum" where
  "js_neg (Fin a) = Fin (- a)"
| "js_neg PosInf = NegInf"
| "js_neg NegInf = PosInf"
| "js_neg NaN = NaN"

subsection \<open>Rounding to a double\<close>

text \<open>
  \<open>flog2 a\<close> is the integer part of the binary logarithm of \<open>a \<ge> 1\<close>, and \<open>ilog2 a\<close> that of
  any \<open>a > 0\<close>: the exponent \<open>k\<close> with \<open>pow2 k \<le> a < pow2 (k + 1)\<close>.
\<close>

function flog2 :: "rat \<Rightarrow> nat" where
  "flog2 a = (if a < 2 then 0 else Suc (flog2 (a / 2)))"
  by pat_completeness auto
termination
proof (relation "measure (\<lambda>a. nat \<lfloor>a\<rfloor>)")
  show "wf (measure (\<lambda>a::rat. nat \<lfloor>a\<rfloor>))" by simp
next
  fix a :: rat
  assume "\<not> a < 2"
  then have a: "2 \<le> a" by simp
  then have "a / 2 \<le> a - 1" by linarith
  then have "\<lfloor>a / 2\<rfloor> \<le> \<lfloor>a - 1\<rfloor>" by (rule floor_mono)
  moreover have "\<lfloor>a - 1\<rfloor> = \<lfloor>a\<rfloor> - 1" by simp
  moreover have "2 \<le> \<lfloor>a\<rfloor>" using a by (simp add: le_floor_iff)
  ultimately show "(a / 2, a) \<in> measure (\<lambda>a. nat \<lfloor>a\<rfloor>)" by simp
qed

definition ilog2 :: "rat \<Rightarrow> int" where
  "ilog2 a =
     (if 1 \<le> a then int (flog2 a)
      else let k = flog2 (1 / a) in if 2 ^ k = 1 / a then - int k else - int k - 1)"

definition pow2 :: "int \<Rightarrow> rat" where
  "pow2 e = 2 powi e"

text \<open>The nearest integer, a tie going to the even one.\<close>

definition round_half_even :: "rat \<Rightarrow> int" where
  "round_half_even x =
     (let f = \<lfloor>x\<rfloor>; d = x - of_int f in
      if d < 1 / 2 then f else if 1 / 2 < d then f + 1 else if even f then f else f + 1)"

text \<open>
  A double has a mantissa of 53 bits and a least exponent of \<open>-1074\<close>: around \<open>a > 0\<close> the
  doubles are the multiples of \<open>pow2 e\<close> for \<open>e = quantum_exp a\<close>. \<open>round_pos\<close> rounds a
  positive rational to the nearest of them, and to infinity from \<open>pow2 1024\<close> on;
  \<open>round64\<close> rounds any rational, by symmetry.
\<close>

definition quantum_exp :: "rat \<Rightarrow> int" where
  "quantum_exp a = max (- 1074) (ilog2 a - 52)"

definition round_pos :: "rat \<Rightarrow> jsnum" where
  "round_pos a =
     (let e = quantum_exp a;
          r = of_int (round_half_even (a / pow2 e)) * pow2 e
      in if pow2 1024 \<le> r then PosInf else Fin r)"

definition round64 :: "rat \<Rightarrow> jsnum" where
  "round64 q = (if q = 0 then Fin 0 else if 0 < q then round_pos q else js_neg (round_pos (- q)))"

text \<open>The rationals that are doubles, and the largest of them.\<close>

definition is_double :: "rat \<Rightarrow> bool" where
  "is_double q = (round64 q = Fin q)"

definition max_double :: rat where
  "max_double = (2 ^ 53 - 1) * pow2 971"

subsection \<open>The operators\<close>

text \<open>The operator \<^verbatim>\<open>+\<close> on two numbers.\<close>

fun js_add :: "jsnum \<Rightarrow> jsnum \<Rightarrow> jsnum" where
  "js_add (Fin a) (Fin b) = round64 (a + b)"
| "js_add NaN y = NaN"
| "js_add x NaN = NaN"
| "js_add PosInf NegInf = NaN"
| "js_add NegInf PosInf = NaN"
| "js_add PosInf y = PosInf"
| "js_add x PosInf = PosInf"
| "js_add NegInf y = NegInf"
| "js_add x NegInf = NegInf"

text \<open>The operator \<^verbatim>\<open>-\<close>: \<^verbatim>\<open>x - y\<close> is \<^verbatim>\<open>x + (-y)\<close>.\<close>

definition js_sub :: "jsnum \<Rightarrow> jsnum \<Rightarrow> jsnum" where
  "js_sub x y = js_add x (js_neg y)"

text \<open>An infinity of the sign of a finite non-zero value; NaN for zero.\<close>

definition signed_inf :: "rat \<Rightarrow> jsnum" where
  "signed_inf a = (if a = 0 then NaN else if 0 < a then PosInf else NegInf)"

text \<open>The operator \<^verbatim>\<open>*\<close>.\<close>

fun js_mul :: "jsnum \<Rightarrow> jsnum \<Rightarrow> jsnum" where
  "js_mul (Fin a) (Fin b) = round64 (a * b)"
| "js_mul NaN y = NaN"
| "js_mul x NaN = NaN"
| "js_mul (Fin a) PosInf = signed_inf a"
| "js_mul (Fin a) NegInf = signed_inf (- a)"
| "js_mul PosInf (Fin b) = signed_inf b"
| "js_mul NegInf (Fin b) = signed_inf (- b)"
| "js_mul PosInf PosInf = PosInf"
| "js_mul PosInf NegInf = NegInf"
| "js_mul NegInf PosInf = NegInf"
| "js_mul NegInf NegInf = PosInf"

text \<open>
  The operator \<^verbatim>\<open>/\<close>. A finite value divided by zero is an infinity of its sign, and 0/0
  is NaN; a finite value divided by an infinity is zero.
\<close>

fun js_div :: "jsnum \<Rightarrow> jsnum \<Rightarrow> jsnum" where
  "js_div (Fin a) (Fin b) = (if b = 0 then signed_inf a else round64 (a / b))"
| "js_div NaN y = NaN"
| "js_div x NaN = NaN"
| "js_div (Fin a) PosInf = Fin 0"
| "js_div (Fin a) NegInf = Fin 0"
| "js_div PosInf (Fin b) = (if 0 \<le> b then PosInf else NegInf)"
| "js_div NegInf (Fin b) = (if 0 \<le> b then NegInf else PosInf)"
| "js_div PosInf PosInf = NaN"
| "js_div PosInf NegInf = NaN"
| "js_div NegInf PosInf = NaN"
| "js_div NegInf NegInf = NaN"

text \<open>The comparisons \<^verbatim>\<open><=\<close> and \<^verbatim>\<open><\<close>: false as soon as one side is NaN.\<close>

fun js_le :: "jsnum \<Rightarrow> jsnum \<Rightarrow> bool" where
  "js_le (Fin a) (Fin b) = (a \<le> b)"
| "js_le NaN y = False"
| "js_le x NaN = False"
| "js_le NegInf y = True"
| "js_le x PosInf = True"
| "js_le PosInf y = False"
| "js_le x NegInf = False"

fun js_lt :: "jsnum \<Rightarrow> jsnum \<Rightarrow> bool" where
  "js_lt (Fin a) (Fin b) = (a < b)"
| "js_lt NaN y = False"
| "js_lt x NaN = False"
| "js_lt PosInf y = False"
| "js_lt x NegInf = False"
| "js_lt NegInf y = True"
| "js_lt x PosInf = True"

text \<open>The comparisons \<^verbatim>\<open>>=\<close> and \<^verbatim>\<open>>\<close>.\<close>

definition js_ge :: "jsnum \<Rightarrow> jsnum \<Rightarrow> bool" where
  "js_ge x y = js_le y x"

definition js_gt :: "jsnum \<Rightarrow> jsnum \<Rightarrow> bool" where
  "js_gt x y = js_lt y x"

text \<open>\<^verbatim>\<open>Math.max\<close> and \<^verbatim>\<open>Math.min\<close> of two numbers: NaN when either is NaN.\<close>

definition Math_max :: "jsnum \<Rightarrow> jsnum \<Rightarrow> jsnum" where
  "Math_max x y = (if x = NaN \<or> y = NaN then NaN else if js_le y x then x else y)"

definition Math_min :: "jsnum \<Rightarrow> jsnum \<Rightarrow> jsnum" where
  "Math_min x y = (if x = NaN \<or> y = NaN then NaN else if js_le x y then x else y)"

text \<open>A number is falsy when it is zero or NaN.\<close>

definition truthy :: "jsnum \<Rightarrow> bool" where
  "truthy x = (x \<noteq> NaN \<and> x \<noteq> Fin 0)"

section \<open>The statistics record and the odds result\<close>

record stats =
  rolls :: jsnum
  w_slots :: jsnum
  sw_slots :: jsnum
  w_boost :: jsnum
  sw_boost :: jsnum
  disabled_cards :: jsnum
  cards_left :: jsnum
  cards_claimed :: jsnum
  kp_limit :: jsnum
  kp_usage :: jsnum
  kp_bonus :: jsnum
  og_server :: bool
  tuto_lvl :: jsnum
  persrare :: jsnum

record odds =
  specific_roll_odds :: jsnum
  specific_wish_odds :: jsnum
  wish_odds :: jsnum
  star_wish_odds :: jsnum
  kspawn_odds :: jsnum

definition CARD_TOTAL :: jsnum where
  "CARD_TOTAL = Fin 43848"

definition defaultStats :: stats where
  "defaultStats = \<lparr> rolls = Fin 10, w_slots = Fin 5, sw_slots = Fin 1, w_boost = Fin 0,
     sw_boost = Fin 0, disabled_cards = Fin 0, cards_left = CARD_TOTAL,
     cards_claimed = Fin 0, kp_limit = Fin 100, kp_usage = Fin 100, kp_bonus = Fin 0,
     og_server = False, tuto_lvl = Fin 0, persrare = Fin 1 \<rparr>"

section \<open>The odds calculator\<close>

definition cardsAvailable :: "stats \<Rightarrow> jsnum" where
  "cardsAvailable s = js_sub (cards_left s) (disabled_cards s)"

definition calculateOdds :: "stats \<Rightarrow> odds" where
  "calculateOdds s =
     (let available = cardsAvailable s in
      if js_le available (Fin 0) then
        \<lparr> specific_roll_odds = Fin 0, specific_wish_odds = Fin 0, wish_odds = Fin 0,
          star_wish_odds = Fin 0, kspawn_odds = Fin 0 \<rparr>
      else
        let base = js_div (Fin 1) available;
            wishMult = js_add (Fin 1) (js_div (w_boost s) (Fin 100));
            starMult = js_add (Fin 1) (js_div (js_add (w_boost s) (sw_boost s)) (Fin 100));
            normalSlots = Math_max (Fin 0) (js_sub (w_slots s) (sw_slots s));
            kRaw = js_div (js_mul (cards_claimed s)
                             (js_div (Fin 50) (Math_max (Fin 1) (persrare s))))
                          available
        in \<lparr> specific_roll_odds = base,
             specific_wish_odds = js_mul base wishMult,
             wish_odds = js_mul (js_mul normalSlots base) wishMult,
             star_wish_odds = js_mul (js_mul (sw_slots s) base) starMult,
             kspawn_odds = Math_max (Fin 0) (Math_min (Fin 1) kRaw) \<rparr>)"

section \<open>The upgrade effects\<close>

text \<open>
  Each effect of the table \<^verbatim>\<open>UPGRADE_EFFECTS\<close> updates fields of the object it is handed.
  Here an effect is the function from the object's contents before the call to its contents
  after it; the store of objects comes further down.
\<close>

definition Bronze :: "stats \<Rightarrow> jsnum \<Rightarrow> stats" where
  "Bronze s level = s\<lparr>w_slots := js_add (w_slots s) (js_mul level (Fin 1))\<rparr>"

definition Silver :: "stats \<Rightarrow> jsnum \<Rightarrow> stats" where
  "Silver s level = s\<lparr>w_boost := js_add (w_boost s) (js_mul level (Fin 25))\<rparr>"

definition Gold :: "stats \<Rightarrow> jsnum \<Rightarrow> stats" where
  "Gold s level = s\<lparr>kp_usage := js_sub (kp_usage s) (js_mul level (Fin 10))\<rparr>"

definition Sapphire :: "stats \<Rightarrow> jsnum \<Rightarrow> stats" where
  "Sapphire s level = s\<lparr>rolls := js_add (rolls s) (js_mul level (Fin 1))\<rparr>"

definition Ruby :: "stats \<Rightarrow> jsnum \<Rightarrow> stats" where
  "Ruby s level =
     (let s1 = (if js_ge level (Fin 1) then s\<lparr>w_slots := js_add (w_slots s) (Fin 2)\<rparr> else s);
          s2 = (if js_ge level (Fin 2) then s1\<lparr>w_boost := js_add (w_boost s1) (Fin 50)\<rparr> else s1);
          s3 = (if js_ge level (Fin 3) then s2\<lparr>kp_usage := js_sub (kp_usage s2) (Fin 20)\<rparr> else s2)
      in if js_ge level (Fin 4) then s3\<lparr>rolls := js_add (rolls s3) (Fin 2)\<rparr> else s3)"

text \<open>
  \<^verbatim>\<open>UPGRADE_EFFECTS[name]\<close> is a property read on an object literal, so it finds the five own
  properties and, for other names, what the literal inherits from \<^verbatim>\<open>Object.prototype\<close>:
  \<^item> functions that return without writing to their arguments (\<^verbatim>\<open>toString\<close>,
    \<^verbatim>\<open>hasOwnProperty\<close>, ...);
  \<^item> \<^verbatim>\<open>__defineGetter__\<close> and \<^verbatim>\<open>__defineSetter__\<close>, which throw a TypeError when their
    second argument (here the level, a number) is not callable;
  \<^item> \<^verbatim>\<open>__proto__\<close>, whose value is the prototype object itself: truthy, but not callable.
  Every other name reads as \<^verbatim>\<open>undefined\<close>.
\<close>

datatype member =
    Effect "stats \<Rightarrow> jsnum \<Rightarrow> stats"
  | InheritedFunction
  | InheritedAccessorDefiner
  | PrototypeObject
  | Undefined

datatype error = TypeError

definition UPGRADE_EFFECTS :: "string \<Rightarrow> member" where
  "UPGRADE_EFFECTS name =
     (if name = ''Bronze'' then Effect Bronze
      else if name = ''Silver'' then Effect Silver
      else if name = ''Gold'' then Effect Gold
      else if name = ''Sapphire'' then Effect Sapphire
      else if name = ''Ruby'' then Effect Ruby
      else if name \<in> set [''constructor'', ''hasOwnProperty'', ''isPrototypeOf'',
                 ''propertyIsEnumerable'', ''toString'', ''toLocaleString'', ''valueOf'',
                 ''__lookupGetter__'', ''__lookupSetter__''] then InheritedFunction
      else if name \<in> set [''__defineGetter__'', ''__defineSetter__''] then InheritedAccessorDefiner
      else if name = ''__proto__'' then PrototypeObject
      else Undefined)"

text \<open>Truthiness of what the table lookup returns: only \<^verbatim>\<open>undefined\<close> is falsy.\<close>

fun member_truthy :: "member \<Rightarrow> bool" where
  "member_truthy Undefined = False"
| "member_truthy m = True"

text \<open>
  The call \<^verbatim>\<open>UPGRADE_EFFECTS[name](stats, nLevel)\<close>, on the contents of \<^verbatim>\<open>stats\<close>: the new
  contents, or the exception thrown.
\<close>

fun call_member :: "member \<Rightarrow> stats \<Rightarrow> jsnum \<Rightarrow> error + stats" where
  "call_member (Effect f) s level = Inr (f s level)"
| "call_member InheritedFunction s level = Inr s"
| "call_member InheritedAccessorDefiner s level = Inl TypeError"
| "call_member PrototypeObject s level = Inl TypeError"
| "call_member Undefined s level = Inl TypeError"

section \<open>The stats aggregator\<close>

definition tutoCheck :: "stats \<Rightarrow> stats" where
  "tutoCheck s =
     (if js_ge (tuto_lvl s) (Fin 16) then s\<lparr>sw_boost := js_add (sw_boost s) (Fin 100)\<rparr>
      else if js_ge (tuto_lvl s) (Fin 10) then s\<lparr>sw_boost := js_add (sw_boost s) (Fin 50)\<rparr>
      else s)"

text \<open>
  \<^verbatim>\<open>Number(level) || 0\<close> for a level that is a number already: \<^verbatim>\<open>Number\<close> returns it, and
  zero and NaN, being falsy, give 0. Levels handed over as strings or booleans are outside
  the model.
\<close>

definition Number_or_zero :: "jsnum \<Rightarrow> jsnum" where
  "Number_or_zero level = (if truthy level then level else Fin 0)"

text \<open>
  The body of the \<^verbatim>\<open>forEach\<close> callback for one entry, and the loop over the entries in the
  order \<^verbatim>\<open>Object.entries\<close> lists them. An exception leaves the loop at once.
\<close>

definition apply_entry :: "stats \<Rightarrow> string \<times> jsnum \<Rightarrow> error + stats" where
  "apply_entry s e =
     (let name = fst e; nLevel = Number_or_zero (snd e) in
      if js_gt nLevel (Fin 0) \<and> member_truthy (UPGRADE_EFFECTS name)
      then call_member (UPGRADE_EFFECTS name) s nLevel
      else Inr s)"

fun forEach_entry :: "stats \<Rightarrow> (string \<times> jsnum) list \<Rightarrow> error + stats" where
  "forEach_entry s [] = Inr s"
| "forEach_entry s (e # es) =
     (case apply_entry s e of Inl err \<Rightarrow> Inl err | Inr s' \<Rightarrow> forEach_entry s' es)"

text \<open>
  \<^verbatim>\<open>Object.entries(upgrades || {})\<close>: an upgrade selection is the list of its own entries;
  \<open>None\<close> stands for a missing selection (\<^verbatim>\<open>undefined\<close> or \<^verbatim>\<open>null\<close>).
\<close>

definition entries :: "(string \<times> jsnum) list option \<Rightarrow> (string \<times> jsnum) list" where
  "entries upgrades = (case upgrades of None \<Rightarrow> [] | Some es \<Rightarrow> es)"

text \<open>The three statements after the loop.\<close>

definition finish :: "stats \<Rightarrow> stats" where
  "finish s =
     (let s1 = (if og_server s then s\<lparr>rolls := js_add (rolls s) (Fin 3)\<rparr> else s);
          s2 = tutoCheck s1
      in s2\<lparr>cards_claimed := js_sub CARD_TOTAL (cards_left s2)\<rparr>)"

text \<open>
  \<open>computeEffectiveStats\<close> on contents: from the contents of the base record to the contents
  of the record returned, or the exception thrown.
\<close>

definition computeEffectiveStats :: "stats \<Rightarrow> (string \<times> jsnum) list option \<Rightarrow> error + stats" where
  "computeEffectiveStats baseStats upgrades =
     (case forEach_entry baseStats (entries upgrades) of
        Inl err \<Rightarrow> Inl err
      | Inr s \<Rightarrow> Inr (finish s))"

section \<open>The aggregator on a store of objects\<close>

text \<open>
  To say that the caller's record is not written to, objects live in a store: a reference is
  an index into the list of the objects allocated so far. The spread \<^verbatim>\<open>{ ...baseStats }\<close>
  allocates a new object with the fields of the base record, and every later statement
  writes through the reference \<^verbatim>\<open>stats\<close> to that new object.
\<close>

type_synonym ref = nat
type_synonym store = "stats list"

definition alloc :: "stats \<Rightarrow> store \<Rightarrow> ref \<times> store" where
  "alloc v h = (length h, h @ [v])"

definition modify :: "ref \<Rightarrow> (stats \<Rightarrow> stats) \<Rightarrow> store \<Rightarrow> store" where
  "modify r f h = h[r := f (h ! r)]"

fun call_member_at :: "member \<Rightarrow> ref \<Rightarrow> jsnum \<Rightarrow> store \<Rightarrow> error option \<times> store" where
  "call_member_at (Effect f) r level h = (None, modify r (\<lambda>s. f s level) h)"
| "call_member_at InheritedFunction r level h = (None, h)"
| "call_member_at InheritedAccessorDefiner r level h = (Some TypeError, h)"
| "call_member_at PrototypeObject r level h = (Some TypeError, h)"
| "call_member_at Undefined r level h = (Some TypeError, h)"

definition apply_entry_at :: "ref \<Rightarrow> string \<times> jsnum \<Rightarrow> store \<Rightarrow> error option \<times> store" where
  "apply_entry_at r e h =
     (let name = fst e; nLevel = Number_or_zero (snd e) in
      if js_gt nLevel (Fin 0) \<and> member_truthy (UPGRADE_EFFECTS name)
      then call_member_at (UPGRADE_EFFECTS name) r nLevel h
      else (None, h))"

fun forEach_entry_at :: "ref \<Rightarrow> (string \<times> jsnum) list \<Rightarrow> store \<Rightarrow> error option \<times> store" where
  "forEach_entry_at r [] h = (None, h)"
| "forEach_entry_at r (e # es) h =
     (case apply_entry_at r e h of
        (Some err, h') \<Rightarrow> (Some err, h')
      | (None, h') \<Rightarrow> forEach_entry_at r es h')"

text \<open>
  The whole function: the result is the reference returned or the exception, together with
  the store when the call ends.
\<close>

definition computeEffectiveStats_at ::
    "ref \<Rightarrow> (string \<times> jsnum) list option \<Rightarrow> store \<Rightarrow> (error + ref) \<times> store" where
  "computeEffectiveStats_at baseStats upgrades h =
     (let (stats, h0) = alloc (h ! baseStats) h in
      case forEach_entry_at stats (entries upgrades) h0 of
        (Some err, h1) \<Rightarrow> (Inl err, h1)
      | (None, h1) \<Rightarrow>
          let h2 = (if og_server (h1 ! stats)
                    then modify stats (\<lambda>s. s\<lparr>rolls := js_add (rolls s) (Fin 3)\<rparr>) h1 else h1);
              h3 = modify stats tutoCheck h2;
              h4 = modify stats (\<lambda>s. s\<lparr>cards_claimed := js_sub CARD_TOTAL (cards_left s)\<rparr>) h3
          in (Inr stats, h4))"

section \<open>Records the data model allows\<close>

text \<open>
  The constraints the data model puts on a statistics record: every numeric field is an
  integer (and, being a JavaScript number, a double); \<open>rolls\<close>, \<open>w_slots\<close>, \<open>sw_slots\<close>,
  \<open>disabled_cards\<close>, \<open>cards_left\<close>, \<open>cards_claimed\<close> and \<open>tuto_lvl\<close> are at least 0, and
  \<open>persrare\<close> is at least 1.
\<close>

fun is_int :: "jsnum \<Rightarrow> bool" where
  "is_int (Fin q) = (of_int \<lfloor>q\<rfloor> = q)"
| "is_int x = False"

fun representable :: "jsnum \<Rightarrow> bool" where
  "representable (Fin q) = is_double q"
| "representable x = True"

definition int_field :: "jsnum \<Rightarrow> bool" where
  "int_field x = (is_int x \<and> representable x)"

definition nat_field :: "jsnum \<Rightarrow> bool" where
  "nat_field x = (int_field x \<and> js_le (Fin 0) x)"

definition valid_stats :: "stats \<Rightarrow> bool" where
  "valid_stats s =
     (nat_field (rolls s) \<and> nat_field (w_slots s) \<and> nat_field (sw_slots s) \<and>
      int_field (w_boost s) \<and> int_field (sw_boost s) \<and>
      nat_field (disabled_cards s) \<and> nat_field (cards_left s) \<and> nat_field (cards_claimed s) \<and>
      int_field (kp_limit s) \<and> int_field (kp_usage s) \<and> int_field (kp_bonus s) \<and>
      nat_field (tuto_lvl s) \<and> int_field (persrare s) \<and> js_le (Fin 1) (persrare s))"

text \<open>
  Membership in the interval \<open>[0, 1]\<close>, and being at least 0 (a finite value or
  \<^verbatim>\<open>Infinity\<close>, never NaN).
\<close>

definition in_unit_interval :: "jsnum \<Rightarrow> bool" where
  "in_unit_interval x = (js_le (Fin 0) x \<and> js_le x (Fin 1))"

definition nonneg :: "jsnum \<Rightarrow> bool" where
  "nonneg x = js_le (Fin 0) x"

section \<open>The loop as a fold\<close>

text \<open>
  Two definitions used to reason about the loop: \<open>step e\<close> is what one entry does to the
  record when it does not throw, and \<open>raises e\<close> says that the entry throws.
\<close>

definition step :: "string \<times> jsnum \<Rightarrow> stats \<Rightarrow> stats" where
  "step e s = (case apply_entry s e of Inl err \<Rightarrow> s | Inr s' \<Rightarrow> s')"

definition raises :: "string \<times> jsnum \<Rightarrow> bool" where
  "raises e = (js_gt (snd e) (Fin 0) \<and>
     fst e \<in> set [''__defineGetter__'', ''__defineSetter__'', ''__proto__''])"

section \<open>Runs in which no sum is rounded\<close>

text \<open>
  Integers up to \<open>2^53\<close> in magnitude are doubles, and a sum or product of integers that
  stays in that range is not rounded. \<open>the_int x\<close> is the integer a number stands for.
  An entry at integer level \<open>l\<close> changes a field by at most \<open>25 * |l|\<close> (Silver) or by at
  most 50 (Ruby): \<open>entry_weight\<close> bounds both. \<open>exact_run b es\<close> says that every level of
  \<open>es\<close> is an integer and that \<open>rolls\<close>, \<open>w_slots\<close>, \<open>w_boost\<close> and \<open>kp_usage\<close> of \<open>b\<close> are
  integers whose magnitude, increased by the weights of all the entries, stays within
  \<open>2^53\<close>. The four functions \<open>d_rolls\<close>, \<open>d_slots\<close>, \<open>d_boost\<close>, \<open>d_usage\<close> give what an
  entry adds to \<open>rolls\<close>, \<open>w_slots\<close>, \<open>w_boost\<close> and takes from \<open>kp_usage\<close> in such a run, and
  \<open>add_ints\<close> applies four such amounts to a record.
\<close>

fun the_int :: "jsnum \<Rightarrow> int" where
  "the_int (Fin q) = \<lfloor>q\<rfloor>"
| "the_int x = 0"

definition entry_weight :: "string \<times> jsnum \<Rightarrow> int" where
  "entry_weight e = 25 * \<bar>the_int (snd e)\<bar> + 50"

definition safe_field :: "int \<Rightarrow> jsnum \<Rightarrow> bool" where
  "safe_field W x = (is_int x \<and> \<bar>the_int x\<bar> + W \<le> 2 ^ 53)"

definition safe_stats :: "int \<Rightarrow> stats \<Rightarrow> bool" where
  "safe_stats W s =
     (safe_field W (rolls s) \<and> safe_field W (w_slots s) \<and>
      safe_field W (w_boost s) \<and> safe_field W (kp_usage s))"

definition exact_run :: "stats \<Rightarrow> (string \<times> jsnum) list \<Rightarrow> bool" where
  "exact_run b es =
     (list_all (\<lambda>e. is_int (snd e)) es \<and> safe_stats (sum_list (map entry_weight es)) b)"

definition d_rolls :: "string \<times> jsnum \<Rightarrow> int" where
  "d_rolls e =
     (let l = the_int (snd e) in
      if l \<le> 0 then 0
      else if fst e = ''Sapphire'' then l
      else if fst e = ''Ruby'' \<and> 4 \<le> l then 2
      else 0)"

definition d_slots :: "string \<times> jsnum \<Rightarrow> int" where
  "d_slots e =
     (let l = the_int (snd e) in
      if l \<le> 0 then 0
      else if fst e = ''Bronze'' then l
      else if fst e = ''Ruby'' \<and> 1 \<le> l then 2
      else 0)"

definition d_boost :: "string \<times> jsnum \<Rightarrow> int" where
  "d_boost e =
     (let l = the_int (snd e) in
      if l \<le> 0 then 0
      else if fst e = ''Silver'' then l * 25
      else if fst e = ''Ruby'' \<and> 2 \<le> l then 50
      else 0)"

definition d_usage :: "string \<times> jsnum \<Rightarrow> int" where
  "d_usage e =
     (let l = the_int (snd e) in
      if l \<le> 0 then 0
      else if fst e = ''Gold'' then l * 10
      else if fst e = ''Ruby'' \<and> 3 \<le> l then 20
      else 0)"

definition add_ints :: "int \<Rightarrow> int \<Rightarrow> int \<Rightarrow> int \<Rightarrow> stats \<Rightarrow> stats" where
  "add_ints dr ds db dk s =
     s\<lparr>rolls := Fin (of_int (the_int (rolls s) + dr)),
       w_slots := Fin (of_int (the_int (w_slots s) + ds)),
       w_boost := Fin (of_int (the_int (w_boost s) + db)),
       kp_usage := Fin (of_int (the_int (kp_usage s) - dk))\<rparr>"

section \<open>Facts about rounding\<close>

declare flog2.simps [simp del]

lemma flog2_bounds: "1 \<le> a \<Longrightarrow> 2 ^ flog2 a \<le> a \<and> a < 2 ^ Suc (flog2 a)"
proof (induction a rule: flog2.induct)
  case (1 a)
  show ?case
  proof (cases "a < 2")
    case True
    with "1.prems" show ?thesis by (simp add: flog2.simps [of a])
  next
    case False
    then have "1 \<le> a / 2" by simp
    with "1.IH" False have "2 ^ flog2 (a / 2) \<le> a / 2 \<and> a / 2 < 2 ^ Suc (flog2 (a / 2))"
      by simp
    with False show ?thesis by (simp add: flog2.simps [of a])
  qed
qed

lemma ilog2_bounds_powi:
  assumes "0 < a"
  shows "2 powi ilog2 a \<le> a \<and> a < 2 powi (ilog2 a + 1)"
proof (cases "1 \<le> a")
  case True
  then have "ilog2 a = int (flog2 a)" by (simp add: ilog2_def)
  moreover have "2 powi (int (flog2 a) + 1) = (2::rat) ^ Suc (flog2 a)"
    by (simp add: power_int_add)
  ultimately show ?thesis using flog2_bounds [OF True] by simp
next
  case False
  define b where "b = 1 / a"
  define k where "k = flog2 b"
  from False assms have b1: "1 \<le> b" and bpos: "0 < b" by (simp_all add: b_def)
  have a: "a = 1 / b" by (simp add: b_def)
  from flog2_bounds [OF b1] have lo: "2 ^ k \<le> b" and hi: "b < 2 ^ Suc k"
    by (simp_all add: k_def)
  show ?thesis
  proof (cases "2 ^ k = b")
    case True
    then have il: "ilog2 a = - int k" using False by (simp add: ilog2_def b_def k_def)
    have "a = 2 powi (- int k)" using True by (simp add: a power_int_minus_divide)
    moreover have "(2::rat) powi (- int k) < 2 powi (- int k + 1)"
      by (rule power_int_strict_increasing) simp_all
    ultimately show ?thesis unfolding il by simp
  next
    case ne: False
    then have il: "ilog2 a = - int k - 1" using False by (simp add: ilog2_def b_def k_def Let_def)
    from ne lo have lo': "2 ^ k < b" by simp
    have p: "(0::rat) < 2 ^ k" "(0::rat) < 2 ^ Suc k" by simp_all
    have m1: "0 < 2 ^ Suc k * b" and m2: "0 < b * 2 ^ k" using bpos by simp_all
    have "1 / 2 ^ Suc k < a" unfolding a
      by (rule divide_strict_left_mono [OF hi _ m1]) simp
    moreover have "a < 1 / 2 ^ k" unfolding a
      by (rule divide_strict_left_mono [OF lo' _ m2]) simp
    moreover have "2 powi (- int k - 1) = 1 / (2::rat) ^ Suc k"
      by (simp add: power_int_diff power_int_minus_divide)
    moreover have "2 powi (- int k - 1 + 1) = 1 / (2::rat) ^ k"
      by (simp add: power_int_minus_divide)
    ultimately show ?thesis unfolding il by simp
  qed
qed

lemma ilog2_bounds: "0 < a \<Longrightarrow> pow2 (ilog2 a) \<le> a \<and> a < pow2 (ilog2 a + 1)"
  unfolding pow2_def by (rule ilog2_bounds_powi)

lemma pow2_pos: "0 < pow2 e"
  by (simp add: pow2_def)

lemma pow2_mono: "e \<le> k \<Longrightarrow> pow2 e \<le> pow2 k"
  by (simp add: pow2_def power_int_increasing)

lemma pow2_strict_mono: "e < k \<Longrightarrow> pow2 e < pow2 k"
  unfolding pow2_def by (rule power_int_strict_increasing) simp_all

lemma pow2_add: "pow2 (e + k) = pow2 e * pow2 k"
  by (simp add: pow2_def power_int_add)

lemma pow2_nat: "0 \<le> k \<Longrightarrow> pow2 k = 2 ^ nat k"
  by (simp add: pow2_def power_int_def)

lemma pow2_split: "e \<le> k \<Longrightarrow> pow2 k = of_int (2 ^ nat (k - e)) * pow2 e"
proof -
  assume "e \<le> k"
  then have "pow2 (k - e) = 2 ^ nat (k - e)" by (simp add: pow2_nat)
  moreover have "pow2 k = pow2 (k - e) * pow2 e"
    using pow2_add [of "k - e" e] by simp
  ultimately show ?thesis by simp
qed

lemma ilog2_less: "0 < a \<Longrightarrow> a < pow2 k \<Longrightarrow> ilog2 a < k"
proof (rule ccontr)
  assume a: "0 < a" "a < pow2 k" and "\<not> ilog2 a < k"
  then have "k \<le> ilog2 a" by simp
  then have "pow2 k \<le> pow2 (ilog2 a)" by (rule pow2_mono)
  with ilog2_bounds [OF a(1)] a(2) show False by linarith
qed

lemma ilog2_ge: "0 < a \<Longrightarrow> pow2 k \<le> a \<Longrightarrow> k \<le> ilog2 a"
proof (rule ccontr)
  assume a: "0 < a" "pow2 k \<le> a" and "\<not> k \<le> ilog2 a"
  then have "ilog2 a + 1 \<le> k" by simp
  then have "pow2 (ilog2 a + 1) \<le> pow2 k" by (rule pow2_mono)
  with ilog2_bounds [OF a(1)] a(2) show False by linarith
qed

lemma ilog2_le: "0 < a \<Longrightarrow> a \<le> pow2 k \<Longrightarrow> ilog2 a \<le> k"
proof -
  assume a: "0 < a" "a \<le> pow2 k"
  have "pow2 k < pow2 (k + 1)" by (rule pow2_strict_mono) simp
  with a(2) have "a < pow2 (k + 1)" by linarith
  with ilog2_less [OF a(1)] show ?thesis by force
qed

lemma ilog2_unique: "0 < a \<Longrightarrow> pow2 k \<le> a \<Longrightarrow> a < pow2 (k + 1) \<Longrightarrow> ilog2 a = k"
  using ilog2_less [of a "k + 1"] ilog2_ge [of a k] by simp

lemma rhe_of_int: "round_half_even (of_int n) = n"
  by (simp add: round_half_even_def)

lemma rhe_le: "x \<le> of_int N \<Longrightarrow> round_half_even x \<le> N"
proof -
  assume x: "x \<le> of_int N"
  then have f: "\<lfloor>x\<rfloor> \<le> N" by (simp add: floor_le_iff)
  show ?thesis
  proof (cases "x - of_int \<lfloor>x\<rfloor> = 0")
    case True
    then show ?thesis using f by (simp add: round_half_even_def Let_def)
  next
    case False
    then have "of_int \<lfloor>x\<rfloor> < x" using of_int_floor_le [of x] by linarith
    with x have "(of_int \<lfloor>x\<rfloor> :: rat) < of_int N" by simp
    then have "\<lfloor>x\<rfloor> < N" by simp
    then show ?thesis by (simp add: round_half_even_def Let_def)
  qed
qed

lemma rhe_ge: "of_int N \<le> x \<Longrightarrow> N \<le> round_half_even x"
proof -
  assume "of_int N \<le> x"
  then have "N \<le> \<lfloor>x\<rfloor>" by (simp add: le_floor_iff)
  then show ?thesis by (simp add: round_half_even_def Let_def)
qed

lemma scaled_le:
  assumes "e \<le> k" and "a \<le> pow2 k"
  shows "of_int (round_half_even (a / pow2 e)) * pow2 e \<le> pow2 k"
proof -
  let ?N = "2 ^ nat (k - e) :: int"
  have k: "pow2 k = of_int ?N * pow2 e" using assms(1) by (rule pow2_split)
  have "a / pow2 e \<le> of_int ?N"
    using assms(2) pow2_pos [of e] unfolding k by (simp add: pos_divide_le_eq)
  then have "round_half_even (a / pow2 e) \<le> ?N" by (rule rhe_le)
  then have "(of_int (round_half_even (a / pow2 e)) :: rat) \<le> of_int ?N"
    by (simp only: of_int_le_iff)
  then show ?thesis unfolding k using pow2_pos [of e] by (simp only: mult_le_cancel_right_pos)
qed

lemma scaled_ge:
  assumes "e \<le> k" and "pow2 k \<le> a"
  shows "pow2 k \<le> of_int (round_half_even (a / pow2 e)) * pow2 e"
proof -
  let ?N = "2 ^ nat (k - e) :: int"
  have k: "pow2 k = of_int ?N * pow2 e" using assms(1) by (rule pow2_split)
  have "of_int ?N \<le> a / pow2 e"
    using assms(2) pow2_pos [of e] unfolding k by (simp add: pos_le_divide_eq)
  then have "?N \<le> round_half_even (a / pow2 e)" by (rule rhe_ge)
  then have "(of_int ?N :: rat) \<le> of_int (round_half_even (a / pow2 e))"
    by (simp only: of_int_le_iff)
  then show ?thesis unfolding k using pow2_pos [of e] by (simp only: mult_le_cancel_right_pos)
qed

lemma scaled_nonneg:
  assumes "0 \<le> a"
  shows "0 \<le> of_int (round_half_even (a / pow2 e)) * pow2 e"
proof -
  have "of_int 0 \<le> a / pow2 e" using assms pow2_pos [of e] by simp
  then have "0 \<le> round_half_even (a / pow2 e)" by (rule rhe_ge)
  then show ?thesis using pow2_pos [of e] by simp
qed

lemma quantum_exp_ge: "- 1074 \<le> quantum_exp a" "ilog2 a - 52 \<le> quantum_exp a"
  by (simp_all add: quantum_exp_def)

lemma quantum_exp_le: "- 1074 \<le> k \<Longrightarrow> ilog2 a - 52 \<le> k \<Longrightarrow> quantum_exp a \<le> k"
  by (simp add: quantum_exp_def)

lemma below_next_binade:
  assumes "0 < a"
  shows "a < pow2 (quantum_exp a + 53)"
proof -
  have "ilog2 a + 1 \<le> quantum_exp a + 53" using quantum_exp_ge(2) [of a] by simp
  then have "pow2 (ilog2 a + 1) \<le> pow2 (quantum_exp a + 53)" by (rule pow2_mono)
  with ilog2_bounds [OF assms] show ?thesis by linarith
qed

lemma round_pos_upper:
  assumes "0 < a" and "a \<le> pow2 k" and "- 1074 \<le> k" and "k \<le> 1023"
  shows "\<exists>r. round_pos a = Fin r \<and> 0 \<le> r \<and> r \<le> pow2 k"
proof -
  let ?e = "quantum_exp a"
  let ?r = "of_int (round_half_even (a / pow2 ?e)) * pow2 ?e"
  have "ilog2 a \<le> k" using assms(1,2) by (rule ilog2_le)
  then have e: "?e \<le> k" using assms(3) by (intro quantum_exp_le) simp_all
  have r: "?r \<le> pow2 k" using e assms(2) by (rule scaled_le)
  have "pow2 k < pow2 1024" using assms(4) by (intro pow2_strict_mono) simp
  then have "\<not> pow2 1024 \<le> ?r" using r by linarith
  then have "round_pos a = Fin ?r" by (simp add: round_pos_def Let_def)
  moreover have "0 \<le> ?r" using assms(1) by (intro scaled_nonneg) simp
  ultimately show ?thesis using r by blast
qed

lemma round_pos_lower:
  assumes "pow2 k \<le> a" and "- 1074 \<le> k"
  shows "round_pos a = PosInf \<or> (\<exists>r. round_pos a = Fin r \<and> pow2 k \<le> r)"
proof -
  let ?e = "quantum_exp a"
  let ?r = "of_int (round_half_even (a / pow2 ?e)) * pow2 ?e"
  have a: "0 < a" using assms(1) pow2_pos [of k] by linarith
  have k: "k \<le> ilog2 a" using a assms(1) by (rule ilog2_ge)
  then have e: "?e \<le> ilog2 a" using assms(2) by (intro quantum_exp_le) simp_all
  have "pow2 (ilog2 a) \<le> ?r" using e ilog2_bounds [OF a] by (intro scaled_ge) simp_all
  moreover have "pow2 k \<le> pow2 (ilog2 a)" using k by (rule pow2_mono)
  ultimately have "pow2 k \<le> ?r" by linarith
  then show ?thesis by (simp add: round_pos_def Let_def)
qed

lemma round_pos_nonneg:
  assumes "0 < a"
  shows "round_pos a = PosInf \<or> (\<exists>r. round_pos a = Fin r \<and> 0 \<le> r)"
  using scaled_nonneg [of a "quantum_exp a"] assms by (simp add: round_pos_def Let_def)

lemma round_pos_exact:
  assumes "0 < n" and "- 1074 \<le> e0" and "a = of_int n * pow2 e0"
    and "a < pow2 (e0 + 53)" and "a < pow2 1024"
  shows "round_pos a = Fin a"
proof -
  let ?e = "quantum_exp a"
  let ?N = "2 ^ nat (e0 - ?e) :: int"
  have a: "0 < a" using assms(1,3) pow2_pos [of e0] by simp
  have "ilog2 a < e0 + 53" using a assms(4) by (rule ilog2_less)
  then have e: "?e \<le> e0" using assms(2) by (intro quantum_exp_le) simp_all
  have "a = of_int (n * ?N) * pow2 ?e"
    using assms(3) pow2_split [OF e] by simp
  then have "a / pow2 ?e = of_int (n * ?N) * pow2 ?e / pow2 ?e" by simp
  also have "\<dots> = of_int (n * ?N)" using pow2_pos [of ?e] by simp
  finally have "of_int (round_half_even (a / pow2 ?e)) * pow2 ?e = of_int (n * ?N) * pow2 ?e"
    by (simp only: rhe_of_int)
  also have "\<dots> = a" using assms(3) pow2_split [OF e] by simp
  finally show ?thesis using assms(5) by (simp add: round_pos_def Let_def)
qed

lemma pow2_1024: "pow2 1024 = 2 ^ 53 * pow2 971"
proof -
  have "pow2 1024 = pow2 (53 + 971)" by simp
  also have "\<dots> = pow2 53 * pow2 971" by (rule pow2_add)
  also have "pow2 53 = 2 ^ 53" by (simp add: pow2_nat)
  finally show ?thesis .
qed

lemma max_double_less: "max_double < pow2 1024"
  unfolding pow2_1024 max_double_def using pow2_pos [of 971]
  by (simp only: mult_less_cancel_right_pos)

lemma pow2_1023_le: "pow2 1023 \<le> max_double"
proof -
  have "pow2 1023 = pow2 (52 + 971)" by simp
  also have "\<dots> = pow2 52 * pow2 971" by (rule pow2_add)
  also have "pow2 52 = 2 ^ 52" by (simp add: pow2_nat)
  finally have "pow2 1023 = 2 ^ 52 * pow2 971" .
  then show ?thesis unfolding max_double_def using pow2_pos [of 971]
    by (simp only: mult_le_cancel_right_pos) simp
qed

lemma round_pos_finite:
  assumes "0 < a" and "a \<le> max_double"
  shows "\<exists>r. round_pos a = Fin r \<and> 0 \<le> r \<and> r \<le> max_double"
proof -
  let ?e = "quantum_exp a"
  let ?m = "round_half_even (a / pow2 ?e)"
  let ?r = "of_int ?m * pow2 ?e"
  have "a < pow2 1024" using assms(2) max_double_less by simp
  then have "ilog2 a < 1024" using assms(1) by (intro ilog2_less)
  then have e: "?e \<le> 971" by (intro quantum_exp_le) simp_all
  have r: "?r \<le> max_double"
  proof (cases "?e = 971")
    case True
    have "a / pow2 971 \<le> of_int (2 ^ 53 - 1)"
      using assms(2) pow2_pos [of 971] unfolding max_double_def
      by (simp add: pos_divide_le_eq)
    then have "round_half_even (a / pow2 971) \<le> 2 ^ 53 - 1" by (rule rhe_le)
    then have "(of_int (round_half_even (a / pow2 971)) :: rat) \<le> of_int (2 ^ 53 - 1)"
      by (simp only: of_int_le_iff)
    then have "of_int (round_half_even (a / pow2 971)) * pow2 971 \<le> of_int (2 ^ 53 - 1) * pow2 971"
      using pow2_pos [of 971] by (simp only: mult_le_cancel_right_pos)
    then show ?thesis unfolding True max_double_def by simp
  next
    case False
    with e have e': "?e + 53 \<le> 1023" by simp
    have "a \<le> pow2 (?e + 53)" using below_next_binade [OF assms(1)] by simp
    then have "?r \<le> pow2 (?e + 53)" by (intro scaled_le) simp_all
    also have "\<dots> \<le> pow2 1023" using e' by (rule pow2_mono)
    finally show ?thesis using pow2_1023_le by linarith
  qed
  then have "\<not> pow2 1024 \<le> ?r" using max_double_less by linarith
  then have "round_pos a = Fin ?r" by (simp add: round_pos_def Let_def)
  moreover have "0 \<le> ?r" using assms(1) by (intro scaled_nonneg) simp
  ultimately show ?thesis using r by blast
qed

lemma round_pos_fixed_le:
  assumes "0 < c" and "round_pos c = Fin c"
  shows "c \<le> max_double"
proof -
  let ?e = "quantum_exp c"
  let ?m = "round_half_even (c / pow2 ?e)"
  let ?r = "of_int ?m * pow2 ?e"
  from assms(2) have r: "?r = c" and lt: "?r < pow2 1024"
    by (auto simp: round_pos_def Let_def split: if_splits)
  then have "c < pow2 1024" by simp
  then have "ilog2 c < 1024" using assms(1) by (intro ilog2_less)
  then have e: "?e \<le> 971" by (intro quantum_exp_le) simp_all
  show ?thesis
  proof (cases "?e = 971")
    case True
    from lt have "of_int (round_half_even (c / pow2 971)) * pow2 971 < 2 ^ 53 * pow2 971"
      unfolding True pow2_1024 .
    then have "(of_int (round_half_even (c / pow2 971)) :: rat) < 2 ^ 53"
      using pow2_pos [of 971] by (simp only: mult_less_cancel_right_pos)
    then have "(of_int (round_half_even (c / pow2 971)) :: rat) < of_int (2 ^ 53)" by simp
    then have "round_half_even (c / pow2 971) < 2 ^ 53" by (simp only: of_int_less_iff)
    then have "round_half_even (c / pow2 971) \<le> 2 ^ 53 - 1" by simp
    then have "(of_int (round_half_even (c / pow2 971)) :: rat) \<le> of_int (2 ^ 53 - 1)"
      by (simp only: of_int_le_iff)
    then have "of_int (round_half_even (c / pow2 971)) * pow2 971 \<le> of_int (2 ^ 53 - 1) * pow2 971"
      using pow2_pos [of 971] by (simp only: mult_le_cancel_right_pos)
    then show ?thesis using r unfolding True max_double_def by simp
  next
    case False
    with e have e': "?e + 53 \<le> 1023" by simp
    have "c \<le> pow2 (?e + 53)" using below_next_binade [OF assms(1)] by simp
    also have "\<dots> \<le> pow2 1023" using e' by (rule pow2_mono)
    finally show ?thesis using pow2_1023_le by linarith
  qed
qed

lemma js_neg_neg [simp]: "js_neg (js_neg x) = x"
  by (cases x) simp_all

lemma round64_0 [simp]: "round64 0 = Fin 0"
  by (simp add: round64_def)

lemma round64_minus: "round64 (- q) = js_neg (round64 q)"
  by (simp add: round64_def)

lemma round_pos_not_NaN: "round_pos a \<noteq> NaN"
  by (simp add: round_pos_def Let_def)

lemma round64_not_NaN [simp]: "round64 q \<noteq> NaN"
proof -
  have "js_neg x \<noteq> NaN" if "x \<noteq> NaN" for x using that by (cases x) simp_all
  then show ?thesis using round_pos_not_NaN by (simp add: round64_def)
qed

lemma round64_nonneg:
  assumes "0 \<le> q"
  shows "round64 q = PosInf \<or> (\<exists>r. round64 q = Fin r \<and> 0 \<le> r)"
proof (cases "q = 0")
  case True then show ?thesis by simp
next
  case False
  with assms have "0 < q" by simp
  then show ?thesis using round_pos_nonneg [of q] by (simp add: round64_def)
qed

lemma round64_upper:
  assumes "0 \<le> q" and "q \<le> pow2 k" and "- 1074 \<le> k" and "k \<le> 1023"
  shows "\<exists>r. round64 q = Fin r \<and> 0 \<le> r \<and> r \<le> pow2 k"
proof (cases "q = 0")
  case True then show ?thesis using pow2_pos [of k] by simp
next
  case False
  with assms(1) have "0 < q" by simp
  then show ?thesis using round_pos_upper [OF _ assms(2,3,4)] by (simp add: round64_def)
qed

lemma round64_abs_upper:
  assumes "\<bar>q\<bar> \<le> pow2 k" and "- 1074 \<le> k" and "k \<le> 1023"
  shows "\<exists>r. round64 q = Fin r \<and> \<bar>r\<bar> \<le> pow2 k"
proof (cases "0 \<le> q")
  case True
  with round64_upper [of q k] assms show ?thesis by auto
next
  case False
  then have "0 \<le> - q" "- q \<le> pow2 k" using assms(1) by simp_all
  from round64_upper [OF this assms(2,3)] obtain r
    where "round64 (- q) = Fin r" "0 \<le> r" "r \<le> pow2 k" by blast
  then have "round64 q = Fin (- r)" "\<bar>- r\<bar> \<le> pow2 k"
    using round64_minus [of "- q"] by simp_all
  then show ?thesis by blast
qed

lemma round64_lower:
  assumes "pow2 k \<le> q" and "- 1074 \<le> k"
  shows "round64 q = PosInf \<or> (\<exists>r. round64 q = Fin r \<and> pow2 k \<le> r)"
proof -
  have "0 < q" using assms(1) pow2_pos [of k] by linarith
  then show ?thesis using round_pos_lower [OF assms] by (simp add: round64_def)
qed

lemma round64_finite:
  assumes "\<bar>q\<bar> \<le> max_double"
  shows "\<exists>r. round64 q = Fin r \<and> \<bar>r\<bar> \<le> max_double"
proof -
  have pos: "\<exists>r. round64 a = Fin r \<and> \<bar>r\<bar> \<le> max_double" if "0 < a" "a \<le> max_double" for a
    using round_pos_finite [OF that] that(1) by (auto simp: round64_def)
  consider "q = 0" | "0 < q" | "q < 0" by linarith
  then show ?thesis
  proof cases
    case 1
    have "0 \<le> max_double" using pow2_1023_le pow2_pos [of 1023] by linarith
    with 1 show ?thesis by simp
  next
    case 2
    with assms pos [of q] show ?thesis by simp
  next
    case 3
    then have "0 < - q" "- q \<le> max_double" using assms by simp_all
    from pos [OF this] obtain r where "round64 (- q) = Fin r" "\<bar>r\<bar> \<le> max_double" by blast
    then have "round64 q = Fin (- r)" "\<bar>- r\<bar> \<le> max_double"
      using round64_minus [of "- q"] by simp_all
    then show ?thesis by blast
  qed
qed

lemma is_double_le_max:
  assumes "is_double q"
  shows "\<bar>q\<bar> \<le> max_double"
proof -
  consider "q = 0" | "0 < q" | "q < 0" by linarith
  then show ?thesis
  proof cases
    case 1
    have "0 \<le> max_double" using pow2_1023_le pow2_pos [of 1023] by linarith
    with 1 show ?thesis by simp
  next
    case 2
    with assms have "round_pos q = Fin q" by (simp add: is_double_def round64_def)
    with 2 round_pos_fixed_le [of q] show ?thesis by simp
  next
    case 3
    with assms have "js_neg (round_pos (- q)) = Fin q" by (simp add: is_double_def round64_def)
    then have "round_pos (- q) = Fin (- q)" by (cases "round_pos (- q)") auto
    with 3 round_pos_fixed_le [of "- q"] show ?thesis by simp
  qed
qed

lemma round64_dyadic:
  assumes "\<bar>n\<bar> < 2 ^ 53" and "- 1074 \<le> e" and "e \<le> 971"
  shows "round64 (of_int n * pow2 e) = Fin (of_int n * pow2 e)"
proof -
  have pos: "round_pos (of_int m * pow2 e) = Fin (of_int m * pow2 e)"
    if "0 < m" "m < 2 ^ 53" for m :: int
  proof (rule round_pos_exact [OF that(1) assms(2) refl])
    have "(of_int m :: rat) < of_int (2 ^ 53)" using that(2) by (simp only: of_int_less_iff)
    then have "of_int m * pow2 e < 2 ^ 53 * pow2 e"
      using pow2_pos [of e] by (simp only: mult_less_cancel_right_pos) simp
    also have "2 ^ 53 * pow2 e = pow2 (e + 53)"
      using pow2_add [of e 53] by (simp add: pow2_nat)
    finally show lt: "of_int m * pow2 e < pow2 (e + 53)" .
    have "pow2 (e + 53) \<le> pow2 1024" using assms(3) by (intro pow2_mono) simp
    with lt show "of_int m * pow2 e < pow2 1024" by linarith
  qed
  consider "n = 0" | "0 < n" | "n < 0" by linarith
  then show ?thesis
  proof cases
    case 1 then show ?thesis by simp
  next
    case 2
    with assms(1) pos [of n] pow2_pos [of e] show ?thesis by (simp add: round64_def)
  next
    case 3
    then have "0 < - n" "- n < 2 ^ 53" using assms(1) by simp_all
    from pos [OF this] have rp: "round_pos (- (of_int n * pow2 e)) = Fin (- (of_int n * pow2 e))"
      by simp
    have "of_int n * pow2 e < 0" using 3 pow2_pos [of e] by (simp add: mult_neg_pos)
    then have "round64 (- (of_int n * pow2 e)) = Fin (- (of_int n * pow2 e))"
      using rp by (simp add: round64_def)
    then show ?thesis using round64_minus [of "- (of_int n * pow2 e)"] by simp
  qed
qed

lemma round64_of_int:
  assumes "\<bar>n\<bar> \<le> 2 ^ 53"
  shows "round64 (of_int n) = Fin (of_int n)"
proof (cases "\<bar>n\<bar> < 2 ^ 53")
  case True
  from round64_dyadic [OF True, of 0] show ?thesis by (simp add: pow2_def)
next
  case False
  with assms have "n = 2 ^ 53 \<or> n = - (2 ^ 53)" by linarith
  moreover have "round64 (of_int 1 * pow2 53) = Fin (of_int 1 * pow2 53)"
    by (rule round64_dyadic) simp_all
  moreover have "round64 (of_int (- 1) * pow2 53) = Fin (of_int (- 1) * pow2 53)"
    by (rule round64_dyadic) simp_all
  ultimately show ?thesis by (auto simp: pow2_nat)
qed

lemma round64_numeral [simp]:
  "numeral k \<le> (9007199254740992 :: int) \<Longrightarrow> round64 (numeral k) = Fin (numeral k)"
  using round64_of_int [of "numeral k"] by simp

lemma round64_neg_numeral [simp]:
  "numeral k \<le> (9007199254740992 :: int) \<Longrightarrow> round64 (- numeral k) = Fin (- numeral k)"
  using round64_of_int [of "- numeral k"] by simp

lemma round64_1 [simp]: "round64 1 = Fin 1"
  using round64_of_int [of 1] by simp

lemma round64_neg_1 [simp]: "round64 (- 1) = Fin (- 1)"
  using round64_of_int [of "- 1"] by simp

lemma is_double_of_int: "\<bar>n\<bar> \<le> 2 ^ 53 \<Longrightarrow> is_double (of_int n)"
  by (simp add: is_double_def round64_of_int)

lemma round64_quarter: "round64 (1 / 4) = Fin (1 / 4)" "round64 (21 / 4) = Fin (21 / 4)"
  using round64_dyadic [of 1 "- 2"] round64_dyadic [of 21 "- 2"] by (simp_all add: pow2_def)

section \<open>Facts about numbers\<close>

lemma js_le_Fin_mono: "js_le (Fin a) x \<Longrightarrow> b \<le> a \<Longrightarrow> js_le (Fin b) x"
  by (cases x) simp_all

lemma js_lt_Fin_mono: "js_lt (Fin a) x \<Longrightarrow> b \<le> a \<Longrightarrow> js_lt (Fin b) x"
  by (cases x) simp_all

lemma js_lt_imp_le: "js_lt x y \<Longrightarrow> js_le x y"
  by (cases x; cases y) simp_all

lemma Math_max_Fin: "Math_max (Fin a) (Fin b) = Fin (max a b)"
  by (simp add: Math_max_def max_def)

lemma Math_min_Fin: "Math_min (Fin a) (Fin b) = Fin (min a b)"
  by (simp add: Math_min_def min_def)

lemma clamp_unit: "x \<noteq> NaN \<Longrightarrow> in_unit_interval (Math_max (Fin 0) (Math_min (Fin 1) x))"
  by (cases x) (simp_all add: Math_max_def Math_min_def in_unit_interval_def)

lemma js_div_not_NaN: "y \<noteq> NaN \<Longrightarrow> r \<noteq> 0 \<Longrightarrow> js_div y (Fin r) \<noteq> NaN"
  by (cases y) simp_all

lemma js_mul_Fin_not_NaN: "js_mul (Fin a) (Fin b) \<noteq> NaN"
  by simp

lemma round_pos_Fin_bound: "round_pos a = Fin r \<Longrightarrow> r < pow2 1024"
  by (auto simp: round_pos_def Let_def split: if_splits)

lemma round64_Fin_bound:
  assumes "round64 q = Fin r"
  shows "\<bar>r\<bar> < pow2 1024"
proof -
  consider "q = 0" | "0 < q" | "q < 0" by linarith
  then show ?thesis
  proof cases
    case 1
    with assms pow2_pos [of 1024] show ?thesis by simp
  next
    case 2
    with assms have rp: "round_pos q = Fin r" by (simp add: round64_def)
    with round_pos_nonneg [OF 2] have "0 \<le> r" by auto
    with round_pos_Fin_bound [OF rp] show ?thesis by simp
  next
    case 3
    with assms have "js_neg (round_pos (- q)) = Fin r" by (simp add: round64_def)
    then have rp: "round_pos (- q) = Fin (- r)" by (cases "round_pos (- q)") auto
    from 3 have "0 < - q" by simp
    with round_pos_nonneg [of "- q"] rp have "0 \<le> - r" by auto
    with round_pos_Fin_bound [OF rp] show ?thesis by simp
  qed
qed

lemma is_double_bound: "is_double q \<Longrightarrow> \<bar>q\<bar> < pow2 1024"
  unfolding is_double_def by (rule round64_Fin_bound)

lemma round64_ge_minus_1:
  assumes "- 1 \<le> q" and "round64 q = Fin x"
  shows "- 1 \<le> x"
proof (cases "0 \<le> q")
  case True
  with round64_nonneg [OF True] assms(2) show ?thesis by auto
next
  case False
  with assms(1) have "\<bar>q\<bar> \<le> pow2 0" by (simp add: pow2_def)
  from round64_abs_upper [OF this] assms(2) show ?thesis by (auto simp: pow2_def)
qed

lemma int_field_Fin: "int_field x \<Longrightarrow> \<exists>n::int. x = Fin (of_int n) \<and> is_double (of_int n)"
  unfolding int_field_def by (cases x) (auto intro: sym [of "of_int _"])

lemma nat_field_Fin:
  "nat_field x \<Longrightarrow> \<exists>n::int. 0 \<le> n \<and> x = Fin (of_int n) \<and> is_double (of_int n)"
  unfolding nat_field_def int_field_def by (cases x) (auto intro: sym [of "of_int _"])

text \<open>One plus a hundredth of a boost that is at least -100: finite and at least 0.\<close>

lemma boost_multiplier:
  assumes "\<bar>t\<bar> < pow2 1024" and "- 100 \<le> t"
  shows "\<exists>m. js_add (Fin 1) (js_div (Fin t) (Fin 100)) = Fin m \<and> 0 \<le> m"
proof -
  have p: "pow2 1024 = 64 * pow2 1018"
    using pow2_add [of 6 1018] by (simp add: pow2_nat)
  have "\<bar>t / 100\<bar> \<le> \<bar>t\<bar> / 64" using pow2_pos [of 1018] by (simp add: field_simps)
  also have "\<dots> \<le> pow2 1018" using assms(1) unfolding p by simp
  finally have "\<bar>t / 100\<bar> \<le> pow2 1018" .
  from round64_abs_upper [OF this] obtain x
    where x: "round64 (t / 100) = Fin x" and xb: "\<bar>x\<bar> \<le> pow2 1018" by auto
  have "- 1 \<le> t / 100" using assms(2) by simp
  then have x1: "- 1 \<le> x" using x by (rule round64_ge_minus_1)
  have "1 \<le> pow2 1018" using pow2_mono [of 0 1018] by (simp add: pow2_def)
  then have "1 + x \<le> pow2 1018 + pow2 1018" using xb by linarith
  also have "\<dots> = pow2 1019" using pow2_add [of 1 1018] by (simp add: pow2_nat)
  finally have "1 + x \<le> pow2 1019" .
  moreover have "0 \<le> 1 + x" using x1 by simp
  ultimately obtain m where "round64 (1 + x) = Fin m" "0 \<le> m"
    using round64_upper [of "1 + x" 1019] by auto
  then show ?thesis using x by simp
qed

text \<open>A product of a finite value in \<open>[0, max_double]\<close> and a factor in \<open>[0, 1]\<close>.\<close>

lemma scaled_down:
  assumes "0 \<le> n" and "n \<le> max_double" and "0 \<le> b" and "b \<le> 1"
  shows "\<exists>u. js_mul (Fin n) (Fin b) = Fin u \<and> 0 \<le> u"
proof -
  have "n * b \<le> n * 1" using assms by (intro mult_left_mono) simp_all
  then have "\<bar>n * b\<bar> \<le> max_double" using assms by simp
  from round64_finite [OF this] obtain u where u: "round64 (n * b) = Fin u" by auto
  moreover have "0 \<le> n * b" using assms by simp
  from round64_nonneg [OF this] u have "0 \<le> u" by auto
  ultimately show ?thesis by simp
qed

lemma product_nonneg: "0 \<le> a \<Longrightarrow> 0 \<le> b \<Longrightarrow> nonneg (js_mul (Fin a) (Fin b))"
  using round64_nonneg [of "a * b"] by (auto simp: nonneg_def)

lemma difference_finite:
  assumes "is_double a" and "is_double b" and "0 \<le> a" and "0 \<le> b"
  shows "\<exists>t. js_sub (Fin a) (Fin b) = Fin t \<and> \<bar>t\<bar> \<le> max_double \<and> round64 (a - b) = Fin t"
proof -
  have "\<bar>a\<bar> \<le> max_double" "\<bar>b\<bar> \<le> max_double"
    using assms(1,2) by (simp_all add: is_double_le_max)
  then have "\<bar>a - b\<bar> \<le> max_double" using assms(3,4) by simp
  from round64_finite [OF this] show ?thesis by (auto simp: js_sub_def)
qed


lemma floor_quarter: "\<lfloor>1/4 :: rat\<rfloor> = 0"
  using floor_divide_of_int_eq [of 1 4, where ?'a = rat] by simp

lemma Number_or_zero_gt [simp]: "js_gt (Number_or_zero l) (Fin 0) = js_gt l (Fin 0)"
  by (cases l) (simp_all add: Number_or_zero_def truthy_def js_gt_def)

lemma Number_or_zero_pos: "js_gt l (Fin 0) \<Longrightarrow> Number_or_zero l = l"
  by (cases l) (auto simp: Number_or_zero_def truthy_def js_gt_def)

text \<open>
  Rounding at given values: a tie goes to the even mantissa, \<open>1/10\<close> rounds to the double
  every implementation prints as 0.1, and a value from \<open>pow2 1024\<close> on rounds to infinity.
\<close>

lemma round_half_even_tie:
  "round_half_even (of_int f + 1 / 2) = (if even f then f else f + 1)"
proof -
  have "\<lfloor>rat_of_int f + 1 / 2\<rfloor> = f" by (rule floor_unique) simp_all
  then show ?thesis by (simp add: round_half_even_def Let_def)
qed

lemma round64_in_binade:
  assumes "pow2 k \<le> q" and "q < pow2 (k + 1)" and "- 1022 \<le> k"
    and "round_half_even (q / pow2 (k - 52)) = m"
    and "of_int m * pow2 (k - 52) < pow2 1024"
  shows "round64 q = Fin (of_int m * pow2 (k - 52))"
proof -
  have q: "0 < q" using assms(1) pow2_pos [of k] by linarith
  then have "ilog2 q = k" using assms(1,2) by (rule ilog2_unique)
  then have "quantum_exp q = k - 52" using assms(3) by (simp add: quantum_exp_def)
  then show ?thesis using q assms(4,5) by (simp add: round64_def round_pos_def Let_def)
qed

lemma round64_ties:
  "round64 9007199254740997 = Fin 9007199254740996"
  "round64 9007199254740999 = Fin 9007199254741000"
  "round64 9007199254740998 = Fin 9007199254740998"
proof -
  have t1: "(9007199254740997::rat) / pow2 (53 - 52) = of_int 4503599627370498 + 1 / 2"
    and t2: "(9007199254740999::rat) / pow2 (53 - 52) = of_int 4503599627370499 + 1 / 2"
    by (simp_all add: pow2_def)
  have big: "(9007199254741000::rat) < pow2 1024"
  proof -
    have "(9007199254741000::rat) < pow2 54" by (simp add: pow2_def)
    also have "\<dots> \<le> pow2 1024" by (rule pow2_mono) simp
    finally show ?thesis .
  qed
  have "round64 9007199254740997 = Fin (of_int 4503599627370498 * pow2 (53 - 52))"
    using big by (intro round64_in_binade) (simp_all add: pow2_def t1 [unfolded pow2_def, simplified] round_half_even_tie [of 4503599627370498, simplified])
  then show "round64 9007199254740997 = Fin 9007199254740996" by (simp add: pow2_def)
  have "round64 9007199254740999 = Fin (of_int 4503599627370500 * pow2 (53 - 52))"
    using big by (intro round64_in_binade) (simp_all add: pow2_def t2 [unfolded pow2_def, simplified] round_half_even_tie [of 4503599627370499, simplified])
  then show "round64 9007199254740999 = Fin 9007199254741000" by (simp add: pow2_def)
  show "round64 9007199254740998 = Fin 9007199254740998"
    using round64_dyadic [of 4503599627370499 1] by (simp add: pow2_def)
qed

lemma round_half_even_up:
  "of_int f + 1 / 2 < x \<Longrightarrow> x < of_int f + 1 \<Longrightarrow> round_half_even x = f + 1"
proof -
  assume a: "of_int f + 1 / 2 < x" "x < of_int f + 1"
  then have "\<lfloor>x\<rfloor> = f" by (intro floor_unique) simp_all
  then show ?thesis using a by (simp add: round_half_even_def Let_def)
qed

lemma round64_tenth: "round64 (1 / 10) = Fin (3602879701896397 / 36028797018963968)"
proof -
  have "round_half_even ((1 / 10) / pow2 (- 4 - 52)) = 7205759403792793 + 1"
    by (rule round_half_even_up) (simp_all add: pow2_def)
  moreover have "of_int (7205759403792793 + 1) * pow2 (- 4 - 52) < pow2 1024"
  proof -
    have "of_int (7205759403792793 + 1) * pow2 (- 4 - 52) < pow2 0" by (simp add: pow2_def)
    also have "\<dots> \<le> pow2 1024" by (rule pow2_mono) simp
    finally show ?thesis .
  qed
  ultimately have "round64 (1 / 10) = Fin (of_int (7205759403792793 + 1) * pow2 (- 4 - 52))"
    by (intro round64_in_binade) (simp_all add: pow2_def)
  then show ?thesis by (simp add: pow2_def)
qed

lemma round64_overflow:
  assumes "pow2 1024 \<le> q"
  shows "round64 q = PosInf"
proof -
  from round64_lower [OF assms] round64_Fin_bound [of q] show ?thesis by fastforce
qed

lemma pow2_1023_double: "round64 (pow2 1023) = Fin (pow2 1023)"
proof -
  have "pow2 1023 = of_int (2 ^ 52) * pow2 971"
    using pow2_add [of 52 971] by (simp add: pow2_nat)
  moreover have "round64 (of_int (2 ^ 52) * pow2 971) = Fin (of_int (2 ^ 52) * pow2 971)"
    by (rule round64_dyadic) simp_all
  ultimately show ?thesis by simp
qed

lemma pow2_1023_int: "rat_of_int \<lfloor>pow2 1023\<rfloor> = pow2 1023"
proof -
  have "pow2 1023 = of_int (2 ^ 1023)" by (simp add: pow2_nat)
  then show ?thesis by (simp only: floor_of_int)
qed

section \<open>The degenerate pool\<close>

text \<open>
  Claim C1. When the available pool \<open>cards_left - disabled_cards\<close> is at most zero,
  \<open>calculateOdds\<close> returns the record whose five fields are the finite number 0: none of
  them is NaN or an infinity.
\<close>

theorem calculateOdds_degenerate:
  assumes "js_le (cardsAvailable s) (Fin 0)"
  shows "calculateOdds s = \<lparr> specific_roll_odds = Fin 0, specific_wish_odds = Fin 0,
           wish_odds = Fin 0, star_wish_odds = Fin 0, kspawn_odds = Fin 0 \<rparr>"
  using assms by (simp add: calculateOdds_def)

text \<open>An instance: ten cards left, twenty of them disabled.\<close>

theorem calculateOdds_degenerate_witness:
  "js_le (cardsAvailable (defaultStats\<lparr>cards_left := Fin 10, disabled_cards := Fin 20\<rparr>)) (Fin 0) \<and>
   calculateOdds (defaultStats\<lparr>cards_left := Fin 10, disabled_cards := Fin 20\<rparr>) =
     \<lparr> specific_roll_odds = Fin 0, specific_wish_odds = Fin 0,
       wish_odds = Fin 0, star_wish_odds = Fin 0, kspawn_odds = Fin 0 \<rparr>"
proof -
  have h: "js_le (cardsAvailable (defaultStats\<lparr>cards_left := Fin 10, disabled_cards := Fin 20\<rparr>))
             (Fin 0)"
    by (simp add: cardsAvailable_def defaultStats_def js_sub_def)
  show ?thesis using h calculateOdds_degenerate [OF h] by simp
qed

section \<open>Ranges of the odds\<close>

text \<open>
  Claim C2. For every record that meets the constraints of the data model and has a
  positive available pool, \<open>specific_roll_odds\<close> and \<open>kspawn_odds\<close> lie in \<open>[0, 1]\<close>;
  \<open>specific_wish_odds\<close> and \<open>wish_odds\<close> are at least 0 when \<open>w_boost\<close> is at least \<open>-100\<close>,
  and \<open>star_wish_odds\<close> is at least 0 when \<open>w_boost + sw_boost\<close> is at least \<open>-100\<close> and
  finite. No upper bound 1 holds for \<open>specific_wish_odds\<close>, which is the base probability
  times the wish multiplier and is not clamped, and the two slot odds can be
  \<^verbatim>\<open>Infinity\<close> when the product overflows.
\<close>

theorem odds_ranges:
  assumes "valid_stats s" and "js_gt (cardsAvailable s) (Fin 0)"
  shows "in_unit_interval (specific_roll_odds (calculateOdds s)) \<and>
         in_unit_interval (kspawn_odds (calculateOdds s)) \<and>
         (js_ge (w_boost s) (Fin (- 100)) \<longrightarrow>
            nonneg (specific_wish_odds (calculateOdds s)) \<and>
            nonneg (wish_odds (calculateOdds s))) \<and>
         (js_ge (js_add (w_boost s) (sw_boost s)) (Fin (- 100)) \<and>
          js_lt (js_add (w_boost s) (sw_boost s)) PosInf \<longrightarrow>
            nonneg (star_wish_odds (calculateOdds s)))"
proof -
  from assms(1) obtain c d :: int where c: "cards_left s = Fin (of_int c)"
    and d: "disabled_cards s = Fin (of_int d)" and c0: "0 \<le> c" and d0: "0 \<le> d"
    and cd: "is_double (of_int c)" "is_double (of_int d)"
    unfolding valid_stats_def by (metis nat_field_Fin)
  from assms(1) obtain w sw :: int where w: "w_boost s = Fin (of_int w)"
    and sw: "sw_boost s = Fin (of_int sw)" and wd: "is_double (of_int w)"
    unfolding valid_stats_def by (metis int_field_Fin)
  from assms(1) obtain ws ss :: int where ws: "w_slots s = Fin (of_int ws)"
    and ss: "sw_slots s = Fin (of_int ss)" and ws0: "0 \<le> ws" and ss0: "0 \<le> ss"
    and wsd: "is_double (of_int ws)" "is_double (of_int ss)"
    unfolding valid_stats_def by (metis nat_field_Fin)
  from assms(1) obtain k p :: int where k: "cards_claimed s = Fin (of_int k)"
    and p: "persrare s = Fin (of_int p)"
    unfolding valid_stats_def by (metis nat_field_Fin int_field_Fin)
  \<comment> \<open>the available pool is a finite number, at least 1\<close>
  from difference_finite [OF cd] c0 d0 obtain a
    where av: "cardsAvailable s = Fin a" and ra: "round64 (of_int c - of_int d) = Fin a"
    by (auto simp: cardsAvailable_def c d)
  from assms(2) have a0: "0 < a" by (simp add: av js_gt_def)
  have "0 < c - d"
  proof (rule ccontr)
    assume "\<not> 0 < c - d"
    then have "0 \<le> rat_of_int d - rat_of_int c" by simp
    from round64_nonneg [OF this] have "js_le (Fin 0) (round64 (rat_of_int d - rat_of_int c))"
      by auto
    moreover have "round64 (rat_of_int d - rat_of_int c) = Fin (- a)"
      using round64_minus [of "rat_of_int c - rat_of_int d"] ra by simp
    ultimately show False using a0 by simp
  qed
  then have "pow2 0 \<le> rat_of_int c - rat_of_int d" by (simp add: pow2_def flip: of_int_diff)
  from round64_lower [OF this] ra have a1: "1 \<le> a" by (auto simp: pow2_def)
  \<comment> \<open>the base probability is a finite number in the unit interval\<close>
  have "0 \<le> 1 / a" "1 / a \<le> pow2 0" using a1 by (simp_all add: pow2_def)
  from round64_upper [OF this] obtain b where b: "round64 (1 / a) = Fin b"
    and b0: "0 \<le> b" and b1: "b \<le> 1" by (auto simp: pow2_def)
  have base: "js_div (Fin 1) (Fin a) = Fin b" using a0 b by simp
  have roll: "in_unit_interval (specific_roll_odds (calculateOdds s))"
    using a0 b0 b1 base by (simp add: calculateOdds_def av Let_def in_unit_interval_def)
  \<comment> \<open>the clamp\<close>
  have "js_div (js_mul (cards_claimed s) (js_div (Fin 50) (Math_max (Fin 1) (persrare s))))
          (Fin a) \<noteq> NaN"
  proof (rule js_div_not_NaN)
    have m: "max 1 (rat_of_int p) \<noteq> 0" by simp
    have "0 \<le> 50 / max 1 (rat_of_int p)" by simp
    moreover have "50 / max 1 (rat_of_int p) \<le> pow2 6"
      by (simp add: pow2_def pos_divide_le_eq)
    ultimately obtain x where "round64 (50 / max 1 (rat_of_int p)) = Fin x"
      using round64_upper [of "50 / max 1 (rat_of_int p)" 6] by auto
    then show "js_mul (cards_claimed s) (js_div (Fin 50) (Math_max (Fin 1) (persrare s))) \<noteq> NaN"
      using m by (simp add: k p Math_max_Fin del: max_less_iff_conj)
    show "a \<noteq> 0" using a0 by simp
  qed
  then have ksp: "in_unit_interval (kspawn_odds (calculateOdds s))"
    using a0 clamp_unit by (simp add: calculateOdds_def av Let_def)
  \<comment> \<open>the two wish odds\<close>
  have wish: "nonneg (specific_wish_odds (calculateOdds s)) \<and>
              nonneg (wish_odds (calculateOdds s))"
    if h: "js_ge (w_boost s) (Fin (- 100))"
  proof -
    from h have "- 100 \<le> rat_of_int w" by (simp add: w js_ge_def)
    with boost_multiplier [OF is_double_bound [OF wd]] obtain m
      where m: "js_add (Fin 1) (js_div (Fin (rat_of_int w)) (Fin 100)) = Fin m" and m0: "0 \<le> m"
      by auto
    from difference_finite [OF wsd] ws0 ss0 obtain t
      where t: "js_sub (Fin (rat_of_int ws)) (Fin (rat_of_int ss)) = Fin t"
        and tb: "\<bar>t\<bar> \<le> max_double" by auto
    have "0 \<le> max 0 t" "max 0 t \<le> max_double" using tb by (simp_all add: abs_le_iff)
    from scaled_down [OF this b0 b1] obtain u
      where u: "js_mul (Fin (max 0 t)) (Fin b) = Fin u" and u0: "0 \<le> u" by auto
    have "nonneg (js_mul (Fin b) (Fin m))" using b0 m0 by (rule product_nonneg)
    moreover have "nonneg (js_mul (Fin u) (Fin m))" using u0 m0 by (rule product_nonneg)
    ultimately show ?thesis
      using a0
      by (simp add: calculateOdds_def av Let_def b w ws ss m [simplified] t u [simplified]
            Math_max_Fin)
  qed
  \<comment> \<open>the star-wish odds\<close>
  have star: "nonneg (star_wish_odds (calculateOdds s))"
    if h: "js_ge (js_add (w_boost s) (sw_boost s)) (Fin (- 100)) \<and>
           js_lt (js_add (w_boost s) (sw_boost s)) PosInf"
  proof -
    have "\<exists>t. js_add (w_boost s) (sw_boost s) = Fin t \<and> - 100 \<le> t"
      using h by (cases "js_add (w_boost s) (sw_boost s)") (auto simp: js_ge_def)
    then obtain t where t: "js_add (w_boost s) (sw_boost s) = Fin t" and t100: "- 100 \<le> t"
      by blast
    from t have "round64 (rat_of_int w + rat_of_int sw) = Fin t" by (simp add: w sw)
    then have "\<bar>t\<bar> < pow2 1024" by (rule round64_Fin_bound)
    from boost_multiplier [OF this t100] obtain m
      where m: "js_add (Fin 1) (js_div (Fin t) (Fin 100)) = Fin m" and m0: "0 \<le> m" by auto
    have "0 \<le> rat_of_int ss" "rat_of_int ss \<le> max_double"
      using ss0 is_double_le_max [OF wsd(2)] by simp_all
    from scaled_down [OF this b0 b1] obtain u
      where u: "js_mul (Fin (rat_of_int ss)) (Fin b) = Fin u" and u0: "0 \<le> u" by auto
    have "nonneg (js_mul (Fin u) (Fin m))" using u0 m0 by (rule product_nonneg)
    then show ?thesis
      using a0
      by (simp add: calculateOdds_def av Let_def b ss t m [simplified] u [simplified])
  qed
  from roll ksp wish star show ?thesis by blast
qed

text \<open>An instance: the default record.\<close>

theorem odds_ranges_witness:
  "valid_stats defaultStats \<and> js_gt (cardsAvailable defaultStats) (Fin 0) \<and>
   js_ge (w_boost defaultStats) (Fin (- 100)) \<and>
   js_ge (js_add (w_boost defaultStats) (sw_boost defaultStats)) (Fin (- 100)) \<and>
   js_lt (js_add (w_boost defaultStats) (sw_boost defaultStats)) PosInf \<and>
   in_unit_interval (specific_roll_odds (calculateOdds defaultStats)) \<and>
   in_unit_interval (kspawn_odds (calculateOdds defaultStats)) \<and>
   nonneg (specific_wish_odds (calculateOdds defaultStats)) \<and>
   nonneg (wish_odds (calculateOdds defaultStats)) \<and>
   nonneg (star_wish_odds (calculateOdds defaultStats))"
proof -
  have v: "valid_stats defaultStats"
    by (simp add: valid_stats_def nat_field_def int_field_def is_double_def defaultStats_def
          CARD_TOTAL_def)
  have a: "js_gt (cardsAvailable defaultStats) (Fin 0)"
    by (simp add: cardsAvailable_def defaultStats_def CARD_TOTAL_def js_sub_def js_gt_def)
  have w: "js_ge (w_boost defaultStats) (Fin (- 100))"
    by (simp add: defaultStats_def js_ge_def)
  have sw: "js_ge (js_add (w_boost defaultStats) (sw_boost defaultStats)) (Fin (- 100)) \<and>
            js_lt (js_add (w_boost defaultStats) (sw_boost defaultStats)) PosInf"
    by (simp add: defaultStats_def js_ge_def)
  show ?thesis using v a w sw odds_ranges [OF v a] by simp
qed

text \<open>
  With one card left, a wish boost of 100 and a star-wish boost of -300, the record meets
  every constraint of the data model, yet \<open>specific_wish_odds\<close> is 2 and \<open>star_wish_odds\<close>
  is -1.
\<close>

theorem odds_ranges_counterexample:
  "valid_stats (defaultStats\<lparr>cards_left := Fin 1, cards_claimed := Fin 43847,
                  w_boost := Fin 100, sw_boost := Fin (- 300)\<rparr>) \<and>
   js_gt (cardsAvailable (defaultStats\<lparr>cards_left := Fin 1, cards_claimed := Fin 43847,
                  w_boost := Fin 100, sw_boost := Fin (- 300)\<rparr>)) (Fin 0) \<and>
   specific_wish_odds (calculateOdds (defaultStats\<lparr>cards_left := Fin 1,
      cards_claimed := Fin 43847, w_boost := Fin 100, sw_boost := Fin (- 300)\<rparr>)) = Fin 2 \<and>
   star_wish_odds (calculateOdds (defaultStats\<lparr>cards_left := Fin 1,
      cards_claimed := Fin 43847, w_boost := Fin 100, sw_boost := Fin (- 300)\<rparr>)) = Fin (- 1) \<and>
   \<not> in_unit_interval (Fin 2) \<and> \<not> nonneg (Fin (- 1))"
  by (simp add: valid_stats_def nat_field_def int_field_def is_double_def defaultStats_def
        CARD_TOTAL_def cardsAvailable_def js_sub_def js_gt_def calculateOdds_def Let_def
        in_unit_interval_def nonneg_def)

text \<open>
  The slot odds do overflow: with \<open>pow2 1023\<close> wish slots, no star-wish slot, one card left
  and a wish boost of 100, \<open>wish_odds\<close> is \<^verbatim>\<open>Infinity\<close>.
\<close>

lemma wish_odds_overflow:
  "valid_stats (defaultStats\<lparr>w_slots := Fin (pow2 1023), sw_slots := Fin 0,
      cards_left := Fin 1, cards_claimed := Fin 43847, w_boost := Fin 100\<rparr>) \<and>
   wish_odds (calculateOdds (defaultStats\<lparr>w_slots := Fin (pow2 1023), sw_slots := Fin 0,
      cards_left := Fin 1, cards_claimed := Fin 43847, w_boost := Fin 100\<rparr>)) = PosInf"
proof -
  have p: "0 < pow2 1023" "\<not> pow2 1023 \<le> 0" using pow2_pos [of 1023] by simp_all
  have o: "round64 (pow2 1023 * 2) = PosInf"
    using round64_overflow [of "pow2 1023 * 2"] pow2_add [of 1023 1] by (simp add: pow2_nat)
  show ?thesis
    using p
    by (simp add: valid_stats_def nat_field_def int_field_def is_double_def defaultStats_def
          CARD_TOTAL_def cardsAvailable_def js_sub_def calculateOdds_def Let_def Math_max_def
          pow2_1023_double pow2_1023_int o)
qed

section \<open>The loop over the upgrade entries\<close>

lemma step_eq:
  "step (name, l) s =
     (if js_gt l (Fin 0) then
        (if name = ''Bronze'' then Bronze s l
         else if name = ''Silver'' then Silver s l
         else if name = ''Gold'' then Gold s l
         else if name = ''Sapphire'' then Sapphire s l
         else if name = ''Ruby'' then Ruby s l
         else s)
      else s)"
  by (simp add: step_def apply_entry_def UPGRADE_EFFECTS_def Let_def Number_or_zero_pos)

lemma apply_entry_cases:
  "apply_entry s e = (if raises e then Inl TypeError else Inr (step e s))"
proof -
  obtain name l where e: "e = (name, l)" by (cases e)
  show ?thesis
    by (simp add: e step_def raises_def apply_entry_def UPGRADE_EFFECTS_def Let_def
          Number_or_zero_pos)
qed

lemma forEach_entry_fold:
  "forEach_entry s es = (if \<exists>e\<in>set es. raises e then Inl TypeError else Inr (fold step es s))"
  by (induction es arbitrary: s) (auto simp: apply_entry_cases)

lemma forEach_entry_append:
  "forEach_entry s (xs @ ys) =
     (case forEach_entry s xs of Inl err \<Rightarrow> Inl err | Inr s' \<Rightarrow> forEach_entry s' ys)"
  by (induction xs arbitrary: s) (auto split: sum.splits)

lemma Ruby_above_4:
  assumes "js_gt level (Fin 4)"
  shows "Ruby s level =
     s\<lparr>w_slots := js_add (w_slots s) (Fin 2), w_boost := js_add (w_boost s) (Fin 50),
       kp_usage := js_sub (kp_usage s) (Fin 20), rolls := js_add (rolls s) (Fin 2)\<rparr>"
proof -
  from assms have 4: "js_le (Fin 4) level" by (simp add: js_gt_def js_lt_imp_le)
  have "js_ge level (Fin 1)" "js_ge level (Fin 2)" "js_ge level (Fin 3)" "js_ge level (Fin 4)"
    unfolding js_ge_def using js_le_Fin_mono [OF 4] by simp_all
  then show ?thesis by (simp add: Ruby_def)
qed

lemma Ruby_at_4:
  "Ruby s (Fin 4) =
     s\<lparr>w_slots := js_add (w_slots s) (Fin 2), w_boost := js_add (w_boost s) (Fin 50),
       kp_usage := js_sub (kp_usage s) (Fin 20), rolls := js_add (rolls s) (Fin 2)\<rparr>"
  by (simp add: Ruby_def js_ge_def)

lemma apply_entry_Ruby:
  assumes "js_gt level (Fin 0)"
  shows "apply_entry s (''Ruby'', level) = Inr (Ruby s level)"
  using assms by (simp add: apply_entry_def UPGRADE_EFFECTS_def Number_or_zero_pos)

lemma step_frame:
  "sw_slots (step e s) = sw_slots s \<and> sw_boost (step e s) = sw_boost s \<and>
   disabled_cards (step e s) = disabled_cards s \<and> cards_left (step e s) = cards_left s \<and>
   cards_claimed (step e s) = cards_claimed s \<and> kp_limit (step e s) = kp_limit s \<and>
   kp_bonus (step e s) = kp_bonus s \<and> og_server (step e s) = og_server s \<and>
   tuto_lvl (step e s) = tuto_lvl s \<and> persrare (step e s) = persrare s"
proof -
  obtain name l where e: "e = (name, l)" by (cases e)
  show ?thesis
    unfolding e step_eq
    by (simp add: Bronze_def Silver_def Gold_def Sapphire_def Ruby_def Let_def)
qed

lemma fold_step_frame:
  "sw_slots (fold step es s) = sw_slots s \<and> sw_boost (fold step es s) = sw_boost s \<and>
   disabled_cards (fold step es s) = disabled_cards s \<and>
   cards_left (fold step es s) = cards_left s \<and>
   cards_claimed (fold step es s) = cards_claimed s \<and>
   kp_limit (fold step es s) = kp_limit s \<and> kp_bonus (fold step es s) = kp_bonus s \<and>
   og_server (fold step es s) = og_server s \<and> tuto_lvl (fold step es s) = tuto_lvl s \<and>
   persrare (fold step es s) = persrare s"
  by (induction es arbitrary: s) (simp_all add: step_frame)

lemma computeEffectiveStats_Inr:
  assumes "computeEffectiveStats b u = Inr r"
  shows "r = finish (fold step (entries u) b)"
  using assms by (auto simp: computeEffectiveStats_def forEach_entry_fold split: if_splits)

lemma finish_frame:
  "sw_slots (finish s) = sw_slots s \<and> disabled_cards (finish s) = disabled_cards s \<and>
   cards_left (finish s) = cards_left s \<and> kp_limit (finish s) = kp_limit s \<and>
   kp_bonus (finish s) = kp_bonus s \<and> og_server (finish s) = og_server s \<and>
   tuto_lvl (finish s) = tuto_lvl s \<and> persrare (finish s) = persrare s \<and>
   w_slots (finish s) = w_slots s \<and> w_boost (finish s) = w_boost s \<and>
   kp_usage (finish s) = kp_usage s"
  by (simp add: finish_def tutoCheck_def Let_def)

lemma computeEffectiveStats_returns:
  "(\<exists>r. computeEffectiveStats b u = Inr r) = (\<not> (\<exists>e\<in>set (entries u). raises e))"
  by (simp add: computeEffectiveStats_def forEach_entry_fold)

section \<open>The Ruby tiers\<close>

text \<open>
  Claim C5. At every level above 4 the Ruby upgrade does what it does at level 4: each of
  its four bonuses (\<open>w_slots + 2\<close>, \<open>w_boost + 50\<close>, \<open>kp_usage - 20\<close>, \<open>rolls + 2\<close>) is
  applied once. So a selection with \<open>Ruby\<close> at such a level gives the same effective
  record as the selection with \<open>Ruby\<close> at level 4 in its place.
\<close>

theorem Ruby_tier_cap:
  assumes "js_gt level (Fin 4)"
  shows "Ruby s level = Ruby s (Fin 4) \<and>
         Ruby s level =
           s\<lparr>w_slots := js_add (w_slots s) (Fin 2), w_boost := js_add (w_boost s) (Fin 50),
             kp_usage := js_sub (kp_usage s) (Fin 20), rolls := js_add (rolls s) (Fin 2)\<rparr> \<and>
         computeEffectiveStats b (Some (es1 @ (''Ruby'', level) # es2)) =
         computeEffectiveStats b (Some (es1 @ (''Ruby'', Fin 4) # es2))"
proof -
  have R: "\<And>s. Ruby s level = Ruby s (Fin 4)"
    using Ruby_above_4 [OF assms] Ruby_at_4 by simp
  from assms have "js_gt level (Fin 0)"
    unfolding js_gt_def by (rule js_lt_Fin_mono) simp
  then have "\<And>s. apply_entry s (''Ruby'', level) = apply_entry s (''Ruby'', Fin 4)"
    using R by (simp add: apply_entry_Ruby js_gt_def)
  then have "forEach_entry b (es1 @ (''Ruby'', level) # es2) =
             forEach_entry b (es1 @ (''Ruby'', Fin 4) # es2)"
    by (simp add: forEach_entry_append split: sum.splits)
  then show ?thesis
    using R Ruby_above_4 [OF assms, of s] by (simp add: computeEffectiveStats_def entries_def)
qed

text \<open>An instance: level 400 on the default record.\<close>

theorem Ruby_tier_cap_witness:
  "js_gt (Fin 400) (Fin 4) \<and>
   Ruby defaultStats (Fin 400) = Ruby defaultStats (Fin 4) \<and>
   Ruby defaultStats (Fin 400) =
     defaultStats\<lparr>w_slots := Fin 7, w_boost := Fin 50, kp_usage := Fin 80, rolls := Fin 12\<rparr> \<and>
   computeEffectiveStats defaultStats (Some [(''Ruby'', Fin 400)]) =
   computeEffectiveStats defaultStats (Some [(''Ruby'', Fin 4)])"
proof -
  have h: "js_gt (Fin 400) (Fin 4)" by (simp add: js_gt_def)
  show ?thesis
    using h Ruby_tier_cap [OF h, of defaultStats defaultStats "[]" "[]"]
    by (simp add: defaultStats_def js_sub_def Ruby_at_4)
qed

section \<open>Order of the entries\<close>

lemma Fin_the_int: "is_int x \<Longrightarrow> Fin (of_int (the_int x)) = x"
  by (cases x) simp_all

lemma the_int_Fin_of_int [simp]: "the_int (Fin (of_int n)) = n"
  by simp

lemma is_int_Fin_of_int [simp]: "is_int (Fin (of_int n))"
  by simp

lemma add_exact:
  assumes "is_int x" and "\<bar>the_int x + d\<bar> \<le> 2 ^ 53"
  shows "js_add x (Fin (of_int d)) = Fin (of_int (the_int x + d))"
proof -
  have "js_add (Fin (of_int (the_int x))) (Fin (of_int d)) = round64 (of_int (the_int x + d))"
    by simp
  also have "\<dots> = Fin (of_int (the_int x + d))" using assms(2) by (rule round64_of_int)
  finally show ?thesis using Fin_the_int [OF assms(1)] by simp
qed

lemma sub_exact:
  assumes "is_int x" and "\<bar>the_int x - d\<bar> \<le> 2 ^ 53"
  shows "js_sub x (Fin (of_int d)) = Fin (of_int (the_int x - d))"
proof -
  have "js_sub (Fin (of_int (the_int x))) (Fin (of_int d)) = round64 (of_int (the_int x - d))"
    by (simp add: js_sub_def)
  also have "\<dots> = Fin (of_int (the_int x - d))" using assms(2) by (rule round64_of_int)
  finally show ?thesis using Fin_the_int [OF assms(1)] by simp
qed

lemma mul_exact:
  assumes "\<bar>l * c\<bar> \<le> 2 ^ 53"
  shows "js_mul (Fin (of_int l)) (Fin (of_int c)) = Fin (of_int (l * c))"
proof -
  have "js_mul (Fin (of_int l)) (Fin (of_int c)) = round64 (of_int (l * c))" by simp
  also have "\<dots> = Fin (of_int (l * c))" using assms by (rule round64_of_int)
  finally show ?thesis .
qed

lemma safe_fieldD:
  assumes "safe_field W x" and "\<bar>d\<bar> \<le> W"
  shows "is_int x" and "\<bar>the_int x + d\<bar> \<le> 2 ^ 53" and "\<bar>the_int x - d\<bar> \<le> 2 ^ 53"
  using assms by (auto simp: safe_field_def)

lemma add_ints_same:
  assumes "safe_stats W s"
  shows "add_ints 0 0 0 0 s = s"
  using assms by (simp add: add_ints_def safe_stats_def safe_field_def Fin_the_int)

lemma safe_stats_bound:
  assumes "safe_stats W s"
  shows "W \<le> 2 ^ 53"
  using assms unfolding safe_stats_def safe_field_def by linarith

lemma safe_statsD:
  assumes "safe_stats W s"
  shows "safe_field W (rolls s)" "safe_field W (w_slots s)"
    "safe_field W (w_boost s)" "safe_field W (kp_usage s)"
  using assms by (simp_all add: safe_stats_def)

lemma keep_field: "safe_field W x \<Longrightarrow> Fin (rat_of_int (the_int x)) = x"
  by (simp add: safe_field_def Fin_the_int)

lemma level_times:
  assumes "safe_stats W s" and "0 < l" and "25 * l + 50 \<le> W" and "0 < c" and "c \<le> 25"
  shows "js_mul (Fin (of_int l)) (Fin (of_int c)) = Fin (of_int (l * c))"
proof (rule mul_exact)
  have "l * c \<le> l * 25" using assms(2,5) by (intro mult_left_mono) simp_all
  moreover have "0 \<le> l * c" using assms(2,4) by simp
  ultimately show "\<bar>l * c\<bar> \<le> 2 ^ 53"
    using assms(3) safe_stats_bound [OF assms(1)] by linarith
qed

lemma level_times_bound:
  assumes "0 < l" and "25 * l + 50 \<le> W" and "0 < c" and "c \<le> 25"
  shows "\<bar>l * c\<bar> \<le> (W::int)"
proof -
  have "l * c \<le> l * 25" using assms(1,4) by (intro mult_left_mono) simp_all
  moreover have "0 \<le> l * c" using assms(1,3) by simp
  ultimately show ?thesis using assms(2) by linarith
qed

lemma add_ints_rolls:
  assumes "safe_stats W s"
  shows "s\<lparr>rolls := Fin (of_int (the_int (rolls s) + d))\<rparr> = add_ints d 0 0 0 s"
  using safe_statsD [OF assms] by (simp add: add_ints_def keep_field)

lemma add_ints_slots:
  assumes "safe_stats W s"
  shows "s\<lparr>w_slots := Fin (of_int (the_int (w_slots s) + d))\<rparr> = add_ints 0 d 0 0 s"
  using safe_statsD [OF assms] by (simp add: add_ints_def keep_field)

lemma add_ints_boost:
  assumes "safe_stats W s"
  shows "s\<lparr>w_boost := Fin (of_int (the_int (w_boost s) + d))\<rparr> = add_ints 0 0 d 0 s"
  using safe_statsD [OF assms] by (simp add: add_ints_def keep_field)

lemma add_ints_usage:
  assumes "safe_stats W s"
  shows "s\<lparr>kp_usage := Fin (of_int (the_int (kp_usage s) - d))\<rparr> = add_ints 0 0 0 d s"
  using safe_statsD [OF assms] by (simp add: add_ints_def keep_field)

lemma Bronze_exact:
  assumes "safe_stats W s" and "0 < l" and "25 * l + 50 \<le> W"
  shows "Bronze s (Fin (of_int l)) = add_ints 0 l 0 0 s"
proof -
  have m: "js_mul (Fin (of_int l)) (Fin 1) = Fin (of_int l)"
    using level_times [OF assms, of 1] by simp
  have "\<bar>l\<bar> \<le> W" using level_times_bound [OF assms(2,3), of 1] by simp
  from safe_fieldD(1,2) [OF safe_statsD(2) [OF assms(1)] this]
  have "js_add (w_slots s) (Fin (of_int l)) = Fin (of_int (the_int (w_slots s) + l))"
    by (rule add_exact)
  then show ?thesis
    unfolding Bronze_def m using add_ints_slots [OF assms(1), of l] by (simp only:)
qed

lemma Sapphire_exact:
  assumes "safe_stats W s" and "0 < l" and "25 * l + 50 \<le> W"
  shows "Sapphire s (Fin (of_int l)) = add_ints l 0 0 0 s"
proof -
  have m: "js_mul (Fin (of_int l)) (Fin 1) = Fin (of_int l)"
    using level_times [OF assms, of 1] by simp
  have "\<bar>l\<bar> \<le> W" using level_times_bound [OF assms(2,3), of 1] by simp
  from safe_fieldD(1,2) [OF safe_statsD(1) [OF assms(1)] this]
  have "js_add (rolls s) (Fin (of_int l)) = Fin (of_int (the_int (rolls s) + l))"
    by (rule add_exact)
  then show ?thesis
    unfolding Sapphire_def m using add_ints_rolls [OF assms(1), of l] by (simp only:)
qed

lemma Silver_exact:
  assumes "safe_stats W s" and "0 < l" and "25 * l + 50 \<le> W"
  shows "Silver s (Fin (of_int l)) = add_ints 0 0 (l * 25) 0 s"
proof -
  have m: "js_mul (Fin (of_int l)) (Fin 25) = Fin (of_int (l * 25))"
    using level_times [OF assms, of 25] by simp
  have "\<bar>l * 25\<bar> \<le> W" using level_times_bound [OF assms(2,3), of 25] by simp
  from safe_fieldD(1,2) [OF safe_statsD(3) [OF assms(1)] this]
  have "js_add (w_boost s) (Fin (of_int (l * 25))) = Fin (of_int (the_int (w_boost s) + l * 25))"
    by (rule add_exact)
  then show ?thesis
    unfolding Silver_def m using add_ints_boost [OF assms(1), of "l * 25"] by (simp only:)
qed

lemma Gold_exact:
  assumes "safe_stats W s" and "0 < l" and "25 * l + 50 \<le> W"
  shows "Gold s (Fin (of_int l)) = add_ints 0 0 0 (l * 10) s"
proof -
  have m: "js_mul (Fin (of_int l)) (Fin 10) = Fin (of_int (l * 10))"
    using level_times [OF assms, of 10] by simp
  have "\<bar>l * 10\<bar> \<le> W" using level_times_bound [OF assms(2,3), of 10] by simp
  from safe_fieldD(1,3) [OF safe_statsD(4) [OF assms(1)] this]
  have "js_sub (kp_usage s) (Fin (of_int (l * 10))) = Fin (of_int (the_int (kp_usage s) - l * 10))"
    by (rule sub_exact)
  then show ?thesis
    unfolding Gold_def m using add_ints_usage [OF assms(1), of "l * 10"] by (simp only:)
qed


lemma js_ge_level:
  "js_ge (Fin (of_int l)) (Fin 1) = (1 \<le> l)" "js_ge (Fin (of_int l)) (Fin 2) = (2 \<le> l)"
  "js_ge (Fin (of_int l)) (Fin 3) = (3 \<le> l)" "js_ge (Fin (of_int l)) (Fin 4) = (4 \<le> l)"
proof -
  have "js_ge (Fin (of_int l)) (Fin (of_int k)) = (k \<le> l)" for k
    by (simp add: js_ge_def)
  from this [of 1] this [of 2] this [of 3] this [of 4]
  show "js_ge (Fin (of_int l)) (Fin 1) = (1 \<le> l)" "js_ge (Fin (of_int l)) (Fin 2) = (2 \<le> l)"
    "js_ge (Fin (of_int l)) (Fin 3) = (3 \<le> l)" "js_ge (Fin (of_int l)) (Fin 4) = (4 \<le> l)"
    by simp_all
qed

lemma Ruby_exact:
  assumes "safe_stats W s" and "0 < l" and "25 * l + 50 \<le> W"
  shows "Ruby s (Fin (of_int l)) =
     add_ints (if 4 \<le> l then 2 else 0) (if 1 \<le> l then 2 else 0)
       (if 2 \<le> l then 50 else 0) (if 3 \<le> l then 20 else 0) s"
proof -
  have W: "\<bar>2::int\<bar> \<le> W" "\<bar>50::int\<bar> \<le> W" "\<bar>20::int\<bar> \<le> W"
    using assms(2,3) by simp_all
  note f = safe_statsD [OF assms(1)]
  have a1: "js_add (rolls s) (Fin 2) = Fin (of_int (the_int (rolls s)) + 2)"
    using add_exact [OF safe_fieldD(1,2) [OF f(1) W(1)]] by simp
  have a2: "js_add (w_slots s) (Fin 2) = Fin (of_int (the_int (w_slots s)) + 2)"
    using add_exact [OF safe_fieldD(1,2) [OF f(2) W(1)]] by simp
  have a3: "js_add (w_boost s) (Fin 50) = Fin (of_int (the_int (w_boost s)) + 50)"
    using add_exact [OF safe_fieldD(1,2) [OF f(3) W(2)]] by simp
  have a4: "js_sub (kp_usage s) (Fin 20) = Fin (of_int (the_int (kp_usage s)) - 20)"
    using sub_exact [OF safe_fieldD(1,3) [OF f(4) W(3)]] by simp
  show ?thesis
    using f by (simp add: Ruby_def Let_def js_ge_level a1 a2 a3 a4 add_ints_def keep_field)
qed


lemma step_exact:
  assumes "is_int (snd e)" and "safe_stats (entry_weight e) s"
  shows "step e s = add_ints (d_rolls e) (d_slots e) (d_boost e) (d_usage e) s"
proof -
  have "e = (fst e, Fin (of_int (the_int (snd e))))"
    using Fin_the_int [OF assms(1)] by (simp add: prod_eq_iff)
  then obtain name l where e: "e = (name, Fin (of_int l))" by blast
  have gt: "js_gt (Fin (of_int l)) (Fin 0) = (0 < l)" by (simp add: js_gt_def)
  show ?thesis
  proof (cases "0 < l")
    case False
    then show ?thesis
      using add_ints_same [OF assms(2)]
      by (simp add: e step_eq gt d_rolls_def d_slots_def d_boost_def d_usage_def)
  next
    case True
    then have w: "25 * l + 50 \<le> entry_weight e" by (simp add: entry_weight_def e)
    note ex = Bronze_exact [OF assms(2) True w] Silver_exact [OF assms(2) True w]
      Gold_exact [OF assms(2) True w] Sapphire_exact [OF assms(2) True w]
      Ruby_exact [OF assms(2) True w]
    show ?thesis
      using True add_ints_same [OF assms(2)]
      by (simp add: e step_eq gt ex d_rolls_def d_slots_def d_boost_def d_usage_def)
  qed
qed

lemma add_ints_add:
  "add_ints a b c d (add_ints a' b' c' d' s) = add_ints (a' + a) (b' + b) (c' + c) (d' + d) s"
  by (simp add: add_ints_def algebra_simps)

lemma safe_field_weaken: "safe_field W x \<Longrightarrow> W' \<le> W \<Longrightarrow> safe_field W' x"
  by (simp add: safe_field_def)

lemma safe_stats_weaken: "safe_stats W s \<Longrightarrow> W' \<le> W \<Longrightarrow> safe_stats W' s"
  by (simp add: safe_stats_def safe_field_weaken [of W _ W'])

lemma safe_field_shift:
  assumes "safe_field (w + W) x" and "\<bar>d\<bar> \<le> w"
  shows "safe_field W (Fin (of_int (the_int x + d)))"
    and "safe_field W (Fin (of_int (the_int x - d)))"
proof -
  from assms have i: "is_int x" and b: "\<bar>the_int x\<bar> + (w + W) \<le> 2 ^ 53"
    by (simp_all add: safe_field_def)
  have "\<bar>the_int x + d\<bar> + W \<le> 2 ^ 53" "\<bar>the_int x - d\<bar> + W \<le> 2 ^ 53"
    using b assms(2) by linarith+
  then show "safe_field W (Fin (of_int (the_int x + d)))"
    and "safe_field W (Fin (of_int (the_int x - d)))"
    unfolding safe_field_def by (simp_all only: is_int_Fin_of_int the_int_Fin_of_int simp_thms)
qed

lemma safe_stats_step:
  assumes "safe_stats (w + W) s" and "\<bar>a\<bar> \<le> w" and "\<bar>b\<bar> \<le> w" and "\<bar>c\<bar> \<le> w" and "\<bar>d\<bar> \<le> w"
  shows "safe_stats W (add_ints a b c d s)"
  using safe_statsD [OF assms(1)] assms(2-)
  by (simp add: safe_stats_def add_ints_def safe_field_shift del: of_int_add of_int_diff)

lemma entry_weight_nonneg: "0 \<le> entry_weight e"
  by (simp add: entry_weight_def)

lemma weights_nonneg: "0 \<le> sum_list (map entry_weight es)"
  by (induction es) (simp_all add: entry_weight_nonneg)

lemma d_bounds:
  "\<bar>d_rolls e\<bar> \<le> entry_weight e" "\<bar>d_slots e\<bar> \<le> entry_weight e"
  "\<bar>d_boost e\<bar> \<le> entry_weight e" "\<bar>d_usage e\<bar> \<le> entry_weight e"
  by (simp_all add: d_rolls_def d_slots_def d_boost_def d_usage_def entry_weight_def Let_def)

lemma fold_step_exact:
  assumes "list_all (\<lambda>e. is_int (snd e)) es"
    and "safe_stats (sum_list (map entry_weight es)) s"
  shows "fold step es s =
     add_ints (sum_list (map d_rolls es)) (sum_list (map d_slots es))
       (sum_list (map d_boost es)) (sum_list (map d_usage es)) s"
  using assms
proof (induction es arbitrary: s)
  case Nil
  then show ?case using add_ints_same [of 0 s] by simp
next
  case (Cons e es)
  let ?W = "sum_list (map entry_weight es)"
  from Cons.prems have int: "is_int (snd e)" and ints: "list_all (\<lambda>e. is_int (snd e)) es"
    and safe: "safe_stats (entry_weight e + ?W) s" by simp_all
  have "safe_stats (entry_weight e) s"
    using safe_stats_weaken [OF safe] weights_nonneg [of es] by simp
  with int have st: "step e s = add_ints (d_rolls e) (d_slots e) (d_boost e) (d_usage e) s"
    by (rule step_exact)
  have "safe_stats ?W (add_ints (d_rolls e) (d_slots e) (d_boost e) (d_usage e) s)"
    using safe d_bounds by (rule safe_stats_step)
  from Cons.IH [OF ints this] show ?case by (simp add: st add_ints_add)
qed

lemma sum_list_perm: "mset xs = mset ys \<Longrightarrow> sum_list (map f xs) = (sum_list (map f ys) :: int)"
  by (metis mset_map sum_mset_sum_list)

lemma exact_run_perm:
  assumes "mset es = mset es'" and "exact_run b es"
  shows "exact_run b es'"
proof -
  have "set es = set es'" using assms(1) by (rule mset_eq_setD)
  then show ?thesis
    using assms(2) sum_list_perm [OF assms(1), of entry_weight]
    by (simp add: exact_run_def list_all_iff)
qed

text \<open>
  Claim C6. In a run in which no sum is rounded (\<open>exact_run\<close>: the levels are integers, and
  \<open>rolls\<close>, \<open>w_slots\<close>, \<open>w_boost\<close> and \<open>kp_usage\<close> of the base record are integers whose
  magnitude plus the sum of \<open>25 * |level| + 50\<close> over the entries is at most \<open>2^53\<close>), the
  result of \<open>computeEffectiveStats\<close> does not depend on the order of the upgrade entries: two
  lists with the same entries, in any order, give the same result. Beyond that range the
  sums of doubles are rounded and the order can matter.
\<close>

theorem order_irrelevant:
  assumes "mset es = mset es'" and "exact_run b es"
  shows "computeEffectiveStats b (Some es) = computeEffectiveStats b (Some es')"
proof -
  have set: "set es = set es'" using assms(1) by (rule mset_eq_setD)
  from assms have run': "exact_run b es'" by (rule exact_run_perm)
  have "fold step es b = fold step es' b"
    using fold_step_exact [of es b] fold_step_exact [of es' b] assms(2) run'
    by (simp add: exact_run_def sum_list_perm [OF assms(1)])
  then have "forEach_entry b es = forEach_entry b es'"
    using set by (simp add: forEach_entry_fold)
  then show ?thesis by (simp add: computeEffectiveStats_def entries_def)
qed

text \<open>An instance: Bronze before Ruby, and Ruby before Bronze (both add to \<open>w_slots\<close>).\<close>

theorem order_irrelevant_witness:
  "mset [(''Bronze'', Fin 2), (''Ruby'', Fin 3)] = mset [(''Ruby'', Fin 3), (''Bronze'', Fin 2)] \<and>
   exact_run defaultStats [(''Bronze'', Fin 2), (''Ruby'', Fin 3)] \<and>
   computeEffectiveStats defaultStats (Some [(''Bronze'', Fin 2), (''Ruby'', Fin 3)]) =
   computeEffectiveStats defaultStats (Some [(''Ruby'', Fin 3), (''Bronze'', Fin 2)])"
proof -
  have h: "mset [(''Bronze'', Fin 2), (''Ruby'', Fin 3)] =
           mset [(''Ruby'', Fin 3), (''Bronze'', Fin 2)]"
    by (simp add: add_mset_commute)
  have r: "exact_run defaultStats [(''Bronze'', Fin 2), (''Ruby'', Fin 3)]"
    by (simp add: exact_run_def safe_stats_def safe_field_def entry_weight_def defaultStats_def)
  show ?thesis using h r order_irrelevant [OF h r] by simp
qed

text \<open>
  Bronze at level \<open>2^53\<close> and Ruby at level 1 on the default record, whose \<open>w_slots\<close> is 5:
  \<open>(5 + 2^53) + 2\<close> is 9007199254740998 and \<open>(5 + 2) + 2^53\<close> is 9007199254741000.
\<close>

theorem order_counterexample:
  "mset [(''Bronze'', Fin 9007199254740992), (''Ruby'', Fin 1)] =
   mset [(''Ruby'', Fin 1), (''Bronze'', Fin 9007199254740992)] \<and>
   computeEffectiveStats defaultStats (Some [(''Bronze'', Fin 9007199254740992), (''Ruby'', Fin 1)]) =
     Inr (defaultStats\<lparr>w_slots := Fin 9007199254740998\<rparr>) \<and>
   computeEffectiveStats defaultStats (Some [(''Ruby'', Fin 1), (''Bronze'', Fin 9007199254740992)]) =
     Inr (defaultStats\<lparr>w_slots := Fin 9007199254741000\<rparr>)"
  by (simp add: computeEffectiveStats_def entries_def finish_def tutoCheck_def Let_def
        js_ge_def defaultStats_def CARD_TOTAL_def js_sub_def apply_entry_def
        UPGRADE_EFFECTS_def Number_or_zero_def truthy_def js_gt_def Bronze_def Ruby_def
        round64_ties add_mset_commute)

section \<open>The tutorial bonus\<close>

text \<open>
  Claim C7. The tutorial bonus has two tiers that exclude each other: \<open>sw_boost\<close> gains 100
  when \<open>tuto_lvl\<close> is at least 16, else 50 when \<open>tuto_lvl\<close> is at least 10, else nothing, and
  no other field changes. Levels 16 and 100 give the same bonus, 100. The \<open>sw_boost\<close> of
  the record \<open>computeEffectiveStats\<close> returns is the one this check gives on the base
  record.
\<close>

theorem tutorial_bonus:
  "sw_boost (tutoCheck s) =
     (if js_ge (tuto_lvl s) (Fin 16) then js_add (sw_boost s) (Fin 100)
      else if js_ge (tuto_lvl s) (Fin 10) then js_add (sw_boost s) (Fin 50)
      else sw_boost s) \<and>
   (tutoCheck s)\<lparr>sw_boost := sw_boost s\<rparr> = s \<and>
   sw_boost (tutoCheck (s\<lparr>tuto_lvl := Fin 16\<rparr>)) = js_add (sw_boost s) (Fin 100) \<and>
   sw_boost (tutoCheck (s\<lparr>tuto_lvl := Fin 100\<rparr>)) = js_add (sw_boost s) (Fin 100) \<and>
   (computeEffectiveStats s u = Inr r \<longrightarrow> sw_boost r = sw_boost (tutoCheck s))"
proof -
  have "sw_boost r = sw_boost (tutoCheck s)" if "computeEffectiveStats s u = Inr r"
  proof -
    have r: "r = finish (fold step (entries u) s)"
      using that by (rule computeEffectiveStats_Inr)
    show ?thesis
      by (simp add: r finish_def tutoCheck_def Let_def fold_step_frame)
  qed
  then show ?thesis by (simp add: tutoCheck_def js_ge_def)
qed

text \<open>An instance: tutorial level 16 with a Silver upgrade.\<close>

theorem tutorial_bonus_witness:
  "computeEffectiveStats (defaultStats\<lparr>tuto_lvl := Fin 16\<rparr>) (Some [(''Silver'', Fin 1)]) =
     Inr (defaultStats\<lparr>tuto_lvl := Fin 16, w_boost := Fin 25, sw_boost := Fin 100\<rparr>) \<and>
   sw_boost (tutoCheck (defaultStats\<lparr>tuto_lvl := Fin 16\<rparr>)) = Fin 100 \<and>
   sw_boost (tutoCheck (defaultStats\<lparr>tuto_lvl := Fin 100\<rparr>)) = Fin 100 \<and>
   sw_boost (tutoCheck (defaultStats\<lparr>tuto_lvl := Fin 12\<rparr>)) = Fin 50 \<and>
   sw_boost (tutoCheck (defaultStats\<lparr>tuto_lvl := Fin 9\<rparr>)) = Fin 0"
proof -
  have h: "computeEffectiveStats (defaultStats\<lparr>tuto_lvl := Fin 16\<rparr>) (Some [(''Silver'', Fin 1)]) =
     Inr (defaultStats\<lparr>tuto_lvl := Fin 16, w_boost := Fin 25, sw_boost := Fin 100\<rparr>)"
    by (simp add: computeEffectiveStats_def entries_def finish_def tutoCheck_def Let_def
          js_ge_def defaultStats_def CARD_TOTAL_def js_sub_def apply_entry_def
          UPGRADE_EFFECTS_def Number_or_zero_def truthy_def js_gt_def Silver_def)
  show ?thesis
    using h tutorial_bonus [of "defaultStats\<lparr>tuto_lvl := Fin 16\<rparr>" "Some [(''Silver'', Fin 1)]"
                 "defaultStats\<lparr>tuto_lvl := Fin 16, w_boost := Fin 25, sw_boost := Fin 100\<rparr>"]
      tutorial_bonus [of "defaultStats\<lparr>tuto_lvl := Fin 12\<rparr>"]
      tutorial_bonus [of "defaultStats\<lparr>tuto_lvl := Fin 9\<rparr>"]
      tutorial_bonus [of defaultStats]
    by (simp add: defaultStats_def js_ge_def)
qed

section \<open>The derived field and the untouched fields\<close>

text \<open>
  Claim C9. The record \<open>computeEffectiveStats\<close> returns has \<open>cards_claimed\<close> equal to
  \<open>CARD_TOTAL\<close> (43848) minus its \<open>cards_left\<close>, which is the \<open>cards_left\<close> of the base
  record; the \<open>cards_claimed\<close> of the base record plays no part. The call returns a
  record unless an entry with a level above 0 is named \<^verbatim>\<open>__defineGetter__\<close>,
  \<^verbatim>\<open>__defineSetter__\<close> or \<^verbatim>\<open>__proto__\<close>.
\<close>

theorem cards_claimed_recomputed:
  "(computeEffectiveStats b u = Inr r \<longrightarrow>
      cards_claimed r = js_sub CARD_TOTAL (cards_left r) \<and> cards_left r = cards_left b) \<and>
   ((\<forall>e\<in>set (entries u). \<not> raises e) \<longrightarrow> (\<exists>r'. computeEffectiveStats b u = Inr r'))"
proof -
  have "cards_claimed r = js_sub CARD_TOTAL (cards_left r) \<and> cards_left r = cards_left b"
    if "computeEffectiveStats b u = Inr r"
  proof -
    have r: "r = finish (fold step (entries u) b)"
      using that by (rule computeEffectiveStats_Inr)
    have "cards_claimed (finish s) = js_sub CARD_TOTAL (cards_left (finish s))" for s
      by (simp add: finish_def tutoCheck_def Let_def)
    then show ?thesis by (simp add: r finish_frame fold_step_frame)
  qed
  then show ?thesis using computeEffectiveStats_returns [of b u] by blast
qed

text \<open>An instance: a base record that claims 7 cards while none is missing.\<close>

theorem cards_claimed_recomputed_witness:
  "computeEffectiveStats (defaultStats\<lparr>cards_left := Fin 43000, cards_claimed := Fin 7\<rparr>)
      (Some [(''Bronze'', Fin 2)]) =
     Inr (defaultStats\<lparr>cards_left := Fin 43000, cards_claimed := Fin 848, w_slots := Fin 7\<rparr>) \<and>
   \<not> raises (''Bronze'', Fin 2) \<and>
   cards_claimed (defaultStats\<lparr>cards_left := Fin 43000, cards_claimed := Fin 848,
      w_slots := Fin 7\<rparr>) = js_sub CARD_TOTAL (Fin 43000)"
proof -
  have h: "computeEffectiveStats (defaultStats\<lparr>cards_left := Fin 43000, cards_claimed := Fin 7\<rparr>)
      (Some [(''Bronze'', Fin 2)]) =
     Inr (defaultStats\<lparr>cards_left := Fin 43000, cards_claimed := Fin 848, w_slots := Fin 7\<rparr>)"
    by (simp add: computeEffectiveStats_def entries_def finish_def tutoCheck_def Let_def
          js_ge_def defaultStats_def CARD_TOTAL_def js_sub_def apply_entry_def
          UPGRADE_EFFECTS_def Number_or_zero_def truthy_def js_gt_def Bronze_def)
  have n: "\<forall>e\<in>set (entries (Some [(''Bronze'', Fin 2)])). \<not> raises e"
    by (simp add: entries_def raises_def)
  show ?thesis
    using h n
      cards_claimed_recomputed [of "defaultStats\<lparr>cards_left := Fin 43000, cards_claimed := Fin 7\<rparr>"
        "Some [(''Bronze'', Fin 2)]"
        "defaultStats\<lparr>cards_left := Fin 43000, cards_claimed := Fin 848, w_slots := Fin 7\<rparr>"]
    by (simp add: entries_def)
qed

text \<open>
  Claim C10. The record \<open>computeEffectiveStats\<close> returns has the \<open>sw_slots\<close>,
  \<open>disabled_cards\<close>, \<open>cards_left\<close>, \<open>kp_limit\<close>, \<open>kp_bonus\<close>, \<open>og_server\<close>, \<open>tuto_lvl\<close> and
  \<open>persrare\<close> of the base record. The call returns a record unless an entry with a level
  above 0 is named \<^verbatim>\<open>__defineGetter__\<close>, \<^verbatim>\<open>__defineSetter__\<close> or \<^verbatim>\<open>__proto__\<close>.
\<close>

theorem untouched_fields:
  "(computeEffectiveStats b u = Inr r \<longrightarrow>
      sw_slots r = sw_slots b \<and> disabled_cards r = disabled_cards b \<and>
      cards_left r = cards_left b \<and> kp_limit r = kp_limit b \<and>
      kp_bonus r = kp_bonus b \<and> og_server r = og_server b \<and>
      tuto_lvl r = tuto_lvl b \<and> persrare r = persrare b) \<and>
   ((\<forall>e\<in>set (entries u). \<not> raises e) \<longrightarrow> (\<exists>r'. computeEffectiveStats b u = Inr r'))"
proof -
  have "sw_slots r = sw_slots b \<and> disabled_cards r = disabled_cards b \<and>
      cards_left r = cards_left b \<and> kp_limit r = kp_limit b \<and>
      kp_bonus r = kp_bonus b \<and> og_server r = og_server b \<and>
      tuto_lvl r = tuto_lvl b \<and> persrare r = persrare b"
    if "computeEffectiveStats b u = Inr r"
  proof -
    have r: "r = finish (fold step (entries u) b)"
      using that by (rule computeEffectiveStats_Inr)
    show ?thesis by (simp add: r finish_frame fold_step_frame)
  qed
  then show ?thesis using computeEffectiveStats_returns [of b u] by blast
qed

text \<open>An instance: all five upgrades on an original-server record at tutorial level 12.\<close>

theorem untouched_fields_witness:
  "computeEffectiveStats (defaultStats\<lparr>og_server := True, tuto_lvl := Fin 12\<rparr>)
      (Some [(''Bronze'', Fin 1), (''Silver'', Fin 1), (''Gold'', Fin 1), (''Sapphire'', Fin 1),
             (''Ruby'', Fin 4)]) =
     Inr (defaultStats\<lparr>og_server := True, tuto_lvl := Fin 12, rolls := Fin 16,
            w_slots := Fin 8, w_boost := Fin 75, sw_boost := Fin 50, kp_usage := Fin 70\<rparr>) \<and>
   \<not> raises (''Bronze'', Fin 1) \<and> \<not> raises (''Silver'', Fin 1) \<and>
   \<not> raises (''Gold'', Fin 1) \<and> \<not> raises (''Sapphire'', Fin 1) \<and>
   \<not> raises (''Ruby'', Fin 4) \<and>
   sw_slots defaultStats = Fin 1 \<and> persrare defaultStats = Fin 1"
proof -
  have h: "computeEffectiveStats (defaultStats\<lparr>og_server := True, tuto_lvl := Fin 12\<rparr>)
      (Some [(''Bronze'', Fin 1), (''Silver'', Fin 1), (''Gold'', Fin 1), (''Sapphire'', Fin 1),
             (''Ruby'', Fin 4)]) =
     Inr (defaultStats\<lparr>og_server := True, tuto_lvl := Fin 12, rolls := Fin 16,
            w_slots := Fin 8, w_boost := Fin 75, sw_boost := Fin 50, kp_usage := Fin 70\<rparr>)"
    by (simp add: computeEffectiveStats_def entries_def finish_def tutoCheck_def Let_def
          js_ge_def defaultStats_def CARD_TOTAL_def js_sub_def apply_entry_def
          UPGRADE_EFFECTS_def Number_or_zero_def truthy_def js_gt_def
          Bronze_def Silver_def Gold_def Sapphire_def Ruby_def)
  have n: "\<forall>e\<in>set (entries (Some [(''Bronze'', Fin 1), (''Silver'', Fin 1), (''Gold'', Fin 1),
       (''Sapphire'', Fin 1), (''Ruby'', Fin 4)])). \<not> raises e"
    by (simp add: entries_def raises_def)
  show ?thesis
    using h n
      untouched_fields [of "defaultStats\<lparr>og_server := True, tuto_lvl := Fin 12\<rparr>"
        "Some [(''Bronze'', Fin 1), (''Silver'', Fin 1), (''Gold'', Fin 1), (''Sapphire'', Fin 1),
               (''Ruby'', Fin 4)]"
        "defaultStats\<lparr>og_server := True, tuto_lvl := Fin 12, rolls := Fin 16,
            w_slots := Fin 8, w_boost := Fin 75, sw_boost := Fin 50, kp_usage := Fin 70\<rparr>"]
    by (simp add: defaultStats_def entries_def)
qed

section \<open>The empty selection\<close>

text \<open>
  Claim C4. With an empty upgrade selection \<open>computeEffectiveStats\<close> returns the base
  record with \<open>cards_claimed\<close> recomputed, \<open>rolls\<close> raised by 3 when \<open>og_server\<close> is set, and
  \<open>sw_boost\<close> raised by the tutorial bonus; every other field is the one of the base
  record. When \<open>og_server\<close> is not set and \<open>tuto_lvl\<close> is not at least 10, only
  \<open>cards_claimed\<close> can differ from the base record. A missing selection behaves as the
  empty one.
\<close>

theorem empty_selection:
  "computeEffectiveStats b (Some []) =
     Inr (b\<lparr>rolls := (if og_server b then js_add (rolls b) (Fin 3) else rolls b),
            sw_boost := sw_boost (tutoCheck b),
            cards_claimed := js_sub CARD_TOTAL (cards_left b)\<rparr>) \<and>
   (\<not> og_server b \<and> \<not> js_ge (tuto_lvl b) (Fin 10) \<longrightarrow>
      computeEffectiveStats b (Some []) =
        Inr (b\<lparr>cards_claimed := js_sub CARD_TOTAL (cards_left b)\<rparr>)) \<and>
   computeEffectiveStats b None = computeEffectiveStats b (Some [])"
  by (simp add: computeEffectiveStats_def entries_def finish_def tutoCheck_def Let_def js_ge_def
        js_le_Fin_mono [of 16 _ 10])

text \<open>An instance: the default record.\<close>

theorem empty_selection_witness:
  "\<not> og_server defaultStats \<and> \<not> js_ge (tuto_lvl defaultStats) (Fin 10) \<and>
   computeEffectiveStats defaultStats (Some []) =
     Inr (defaultStats\<lparr>cards_claimed := js_sub CARD_TOTAL (cards_left defaultStats)\<rparr>)"
proof -
  have h: "\<not> og_server defaultStats \<and> \<not> js_ge (tuto_lvl defaultStats) (Fin 10)"
    by (simp add: defaultStats_def js_ge_def)
  show ?thesis
    using h empty_selection [of defaultStats, THEN conjunct2, THEN conjunct1, THEN mp, OF h]
    by simp
qed

text \<open>
  On an original-server record at tutorial level 16 the empty selection changes \<open>rolls\<close>
  from 10 to 13 and \<open>sw_boost\<close> from 0 to 100.
\<close>

theorem empty_selection_counterexample:
  "computeEffectiveStats (defaultStats\<lparr>og_server := True, tuto_lvl := Fin 16\<rparr>) (Some []) =
     Inr (defaultStats\<lparr>og_server := True, tuto_lvl := Fin 16,
            rolls := Fin 13, sw_boost := Fin 100\<rparr>) \<and>
   rolls (defaultStats\<lparr>og_server := True, tuto_lvl := Fin 16\<rparr>) = Fin 10 \<and>
   sw_boost (defaultStats\<lparr>og_server := True, tuto_lvl := Fin 16\<rparr>) = Fin 0"
  by (simp add: computeEffectiveStats_def entries_def finish_def tutoCheck_def Let_def js_ge_def
        defaultStats_def CARD_TOTAL_def js_sub_def)

section \<open>Entries that are skipped\<close>

lemma forEach_entry_filter:
  assumes "\<And>e s. \<not> P e \<Longrightarrow> apply_entry s e = Inr s"
  shows "forEach_entry s (filter P es) = forEach_entry s es"
  by (induction es arbitrary: s) (auto simp: assms split: sum.splits)

lemma apply_entry_skip_level:
  "\<not> js_gt (Number_or_zero level) (Fin 0) \<Longrightarrow> apply_entry s (name, level) = Inr s"
  by (simp add: apply_entry_def)

lemma apply_entry_skip_name:
  assumes "name \<notin> set [''Bronze'', ''Silver'', ''Gold'', ''Sapphire'', ''Ruby'',
                        ''__defineGetter__'', ''__defineSetter__'', ''__proto__'']"
  shows "apply_entry s (name, level) = Inr s"
  using assms by (simp add: apply_entry_def UPGRADE_EFFECTS_def Let_def)

lemma apply_entry_effect:
  assumes "js_gt level (Fin 0)"
  shows "apply_entry s (''Bronze'', level) = Inr (Bronze s level)"
    and "apply_entry s (''Silver'', level) = Inr (Silver s level)"
    and "apply_entry s (''Gold'', level) = Inr (Gold s level)"
    and "apply_entry s (''Sapphire'', level) = Inr (Sapphire s level)"
    and "apply_entry s (''Ruby'', level) = Inr (Ruby s level)"
  using assms by (simp_all add: apply_entry_def UPGRADE_EFFECTS_def Number_or_zero_pos)

text \<open>
  Claim C8. \<open>computeEffectiveStats\<close> skips every entry whose level, after
  \<^verbatim>\<open>Number(level) || 0\<close>, is not greater than 0 (zero, a negative number, NaN), and every
  entry whose name is neither one of Bronze, Silver, Gold, Sapphire, Ruby nor one of
  \<^verbatim>\<open>__defineGetter__\<close>, \<^verbatim>\<open>__defineSetter__\<close>, \<^verbatim>\<open>__proto__\<close>: such entries can be
  deleted from the selection without changing the result. The level is not rounded to an
  integer: at every level greater than 0, whole or not, an entry named Bronze, Silver,
  Gold, Sapphire or Ruby has its effect applied at that very level.
\<close>

theorem skipped_entries:
  "(\<not> js_gt (Number_or_zero level) (Fin 0) \<longrightarrow> apply_entry s (name, level) = Inr s) \<and>
   (name \<notin> set [''Bronze'', ''Silver'', ''Gold'', ''Sapphire'', ''Ruby'',
                 ''__defineGetter__'', ''__defineSetter__'', ''__proto__''] \<longrightarrow>
      apply_entry s (name, level) = Inr s) \<and>
   computeEffectiveStats b (Some es) =
     computeEffectiveStats b (Some (filter (\<lambda>e. js_gt (Number_or_zero (snd e)) (Fin 0) \<and>
        fst e \<in> set [''Bronze'', ''Silver'', ''Gold'', ''Sapphire'', ''Ruby'',
                      ''__defineGetter__'', ''__defineSetter__'', ''__proto__'']) es)) \<and>
   (js_gt level (Fin 0) \<longrightarrow>
      apply_entry s (''Bronze'', level) = Inr (Bronze s level) \<and>
      apply_entry s (''Silver'', level) = Inr (Silver s level) \<and>
      apply_entry s (''Gold'', level) = Inr (Gold s level) \<and>
      apply_entry s (''Sapphire'', level) = Inr (Sapphire s level) \<and>
      apply_entry s (''Ruby'', level) = Inr (Ruby s level))"
proof -
  have "forEach_entry b (filter (\<lambda>e. js_gt (Number_or_zero (snd e)) (Fin 0) \<and>
        fst e \<in> set [''Bronze'', ''Silver'', ''Gold'', ''Sapphire'', ''Ruby'',
                      ''__defineGetter__'', ''__defineSetter__'', ''__proto__'']) es) =
        forEach_entry b es"
  proof (rule forEach_entry_filter)
    fix e :: "string \<times> jsnum" and s
    assume n: "\<not> (js_gt (Number_or_zero (snd e)) (Fin 0) \<and>
        fst e \<in> set [''Bronze'', ''Silver'', ''Gold'', ''Sapphire'', ''Ruby'',
                      ''__defineGetter__'', ''__defineSetter__'', ''__proto__''])"
    obtain name l where e: "e = (name, l)" by (cases e)
    from n show "apply_entry s e = Inr s"
      unfolding e using apply_entry_skip_level [of l s name] apply_entry_skip_name [of name s l]
      by (simp only: fst_conv snd_conv de_Morgan_conj) blast
  qed
  then show ?thesis
    using apply_entry_skip_level [of level s name] apply_entry_skip_name [of name s level]
      apply_entry_effect [of level s]
    by (simp only: computeEffectiveStats_def entries_def option.case) blast
qed

text \<open>
  An instance: a known name at level -1, an unknown name at level 3, and Bronze at level
  1/4, which takes \<open>w_slots\<close> from 5 to 21/4.
\<close>

theorem skipped_entries_witness:
  "\<not> js_gt (Number_or_zero (Fin (- 1))) (Fin 0) \<and>
   apply_entry defaultStats (''Bronze'', Fin (- 1)) = Inr defaultStats \<and>
   ''Platinum'' \<notin> set [''Bronze'', ''Silver'', ''Gold'', ''Sapphire'', ''Ruby'',
                         ''__defineGetter__'', ''__defineSetter__'', ''__proto__''] \<and>
   apply_entry defaultStats (''Platinum'', Fin 3) = Inr defaultStats \<and>
   computeEffectiveStats defaultStats
       (Some [(''Platinum'', Fin 3), (''Bronze'', Fin (- 1)), (''Silver'', Fin 1)]) =
     computeEffectiveStats defaultStats (Some [(''Silver'', Fin 1)]) \<and>
   js_gt (Fin (1 / 4)) (Fin 0) \<and>
   apply_entry defaultStats (''Bronze'', Fin (1 / 4)) = Inr (defaultStats\<lparr>w_slots := Fin (21 / 4)\<rparr>)"
proof -
  have l: "\<not> js_gt (Number_or_zero (Fin (- 1))) (Fin 0)"
    by (simp add: Number_or_zero_def truthy_def js_gt_def)
  have n: "''Platinum'' \<notin> set [''Bronze'', ''Silver'', ''Gold'', ''Sapphire'', ''Ruby'',
                         ''__defineGetter__'', ''__defineSetter__'', ''__proto__'']"
    by simp
  have q: "js_gt (Fin (1 / 4)) (Fin 0)" by (simp add: js_gt_def)
  have b: "Bronze defaultStats (Fin (1 / 4)) = defaultStats\<lparr>w_slots := Fin (21 / 4)\<rparr>"
    by (simp add: Bronze_def defaultStats_def round64_quarter)
  have f: "filter (\<lambda>e. js_gt (Number_or_zero (snd e)) (Fin 0) \<and>
        fst e \<in> set [''Bronze'', ''Silver'', ''Gold'', ''Sapphire'', ''Ruby'',
                      ''__defineGetter__'', ''__defineSetter__'', ''__proto__''])
        [(''Platinum'', Fin 3), (''Bronze'', Fin (- 1)), (''Silver'', Fin 1)] =
      [(''Silver'', Fin 1)]"
    by (simp add: Number_or_zero_def truthy_def js_gt_def)
  have 1: "apply_entry defaultStats (''Bronze'', Fin (- 1)) = Inr defaultStats"
    using l skipped_entries [where level = "Fin (- 1)" and name = "''Bronze''"
        and s = defaultStats and b = defaultStats and es = "[]"]
    by blast
  have 2: "apply_entry defaultStats (''Platinum'', Fin 3) = Inr defaultStats"
    using n skipped_entries [where level = "Fin 3" and name = "''Platinum''"
        and s = defaultStats and b = defaultStats and es = "[]"]
    by blast
  have 3: "computeEffectiveStats defaultStats
       (Some [(''Platinum'', Fin 3), (''Bronze'', Fin (- 1)), (''Silver'', Fin 1)]) =
     computeEffectiveStats defaultStats (Some [(''Silver'', Fin 1)])"
    using skipped_entries [where level = "Fin 3" and name = "''Platinum''"
        and s = defaultStats and b = defaultStats
        and es = "[(''Platinum'', Fin 3), (''Bronze'', Fin (- 1)), (''Silver'', Fin 1)]"]
    unfolding f by blast
  have 4: "apply_entry defaultStats (''Bronze'', Fin (1 / 4)) =
      Inr (defaultStats\<lparr>w_slots := Fin (21 / 4)\<rparr>)"
    using q skipped_entries [where level = "Fin (1 / 4)" and name = "''Bronze''"
        and s = defaultStats and b = defaultStats and es = "[]"]
    unfolding b by blast
  from l n q 1 2 3 4 show ?thesis by blast
qed

text \<open>
  Bronze at level 1/4 is applied: \<open>w_slots\<close> goes from 5 to 21/4, although 1/4 is no
  integer and its integer part is 0.
\<close>

theorem fractional_level_counterexample:
  "computeEffectiveStats defaultStats (Some [(''Bronze'', Fin (1/4))]) =
     Inr (defaultStats\<lparr>w_slots := Fin (21/4)\<rparr>) \<and>
   computeEffectiveStats defaultStats (Some []) = Inr defaultStats \<and>
   \<not> is_int (Fin (1/4)) \<and> \<lfloor>1/4 :: rat\<rfloor> = 0"
  by (simp add: computeEffectiveStats_def entries_def finish_def tutoCheck_def Let_def js_ge_def
        defaultStats_def CARD_TOTAL_def js_sub_def apply_entry_def UPGRADE_EFFECTS_def
        Number_or_zero_def truthy_def js_gt_def Bronze_def floor_quarter round64_quarter)

section \<open>The base record is not written to\<close>

lemma apply_entry_at_eq:
  assumes "r < length h"
  shows "apply_entry_at r e h =
     (case apply_entry (h ! r) e of Inl err \<Rightarrow> (Some err, h) | Inr s' \<Rightarrow> (None, h[r := s']))"
proof (cases "js_gt (Number_or_zero (snd e)) (Fin 0) \<and> member_truthy (UPGRADE_EFFECTS (fst e))")
  case True
  then show ?thesis
    by (cases "UPGRADE_EFFECTS (fst e)")
       (simp_all add: apply_entry_at_def apply_entry_def modify_def)
next
  case False
  then show ?thesis
    by (auto simp: apply_entry_at_def apply_entry_def Let_def)
qed

lemma forEach_entry_at_spec:
  assumes "r < length h" and "forEach_entry_at r es h = (e, h')"
  shows "length h' = length h \<and> (\<forall>a. a \<noteq> r \<longrightarrow> h' ! a = h ! a) \<and>
         (case forEach_entry (h ! r) es of
            Inl err \<Rightarrow> e = Some err
          | Inr s' \<Rightarrow> e = None \<and> h' ! r = s')"
  using assms
proof (induction es arbitrary: h)
  case Nil
  then show ?case by simp
next
  case (Cons x es)
  show ?case
  proof (cases "apply_entry (h ! r) x")
    case (Inl err)
    with Cons.prems show ?thesis by (simp add: apply_entry_at_eq)
  next
    case (Inr s')
    with Cons.prems have run: "forEach_entry_at r es (h[r := s']) = (e, h')"
      by (simp add: apply_entry_at_eq)
    have len: "r < length (h[r := s'])" using Cons.prems(1) by simp
    from Cons.IH [OF len run] Inr Cons.prems(1) show ?thesis by simp
  qed
qed

text \<open>
  The object the base argument refers to, and every other object allocated before the
  call, are left as they were, whether the call returns or throws. When it returns, the
  reference it returns is new (no object of the store before the call has it, so it differs
  from the base argument), and the object behind it holds the effective record. It returns
  unless an entry with a level above 0 is named \<^verbatim>\<open>__defineGetter__\<close>,
  \<^verbatim>\<open>__defineSetter__\<close> or \<^verbatim>\<open>__proto__\<close>.
\<close>

lemma base_object_untouched:
  assumes "baseStats < length h"
    and "computeEffectiveStats_at baseStats upgrades h = (res, h')"
  shows "h' ! baseStats = h ! baseStats \<and> (\<forall>a < length h. h' ! a = h ! a) \<and>
         (case res of
            Inl err \<Rightarrow> computeEffectiveStats (h ! baseStats) upgrades = Inl err
          | Inr r \<Rightarrow> r = length h \<and> r \<noteq> baseStats \<and> r < length h' \<and>
                     computeEffectiveStats (h ! baseStats) upgrades = Inr (h' ! r)) \<and>
         ((\<forall>e\<in>set (entries upgrades). \<not> raises e) \<longrightarrow> (\<exists>r. res = Inr r))"
proof -
  let ?r = "length h" and ?h0 = "h @ [h ! baseStats]"
  obtain e h1 where run: "forEach_entry_at ?r (entries upgrades) ?h0 = (e, h1)"
    by (cases "forEach_entry_at ?r (entries upgrades) ?h0")
  have "?r < length ?h0" by simp
  from forEach_entry_at_spec [OF this run]
  have len: "length h1 = Suc (length h)"
    and old: "\<And>a. a \<noteq> length h \<Longrightarrow> h1 ! a = ?h0 ! a"
    and new: "case forEach_entry (h ! baseStats) (entries upgrades) of
                Inl err \<Rightarrow> e = Some err | Inr s' \<Rightarrow> e = None \<and> h1 ! length h = s'"
    by simp_all
  have old': "\<And>a. a < length h \<Longrightarrow> h1 ! a = h ! a"
    using old by (simp add: nth_append)
  show ?thesis
  proof (cases e)
    case (Some err)
    with assms(2) run have "res = Inl err" "h' = h1"
      by (simp_all add: computeEffectiveStats_at_def alloc_def)
    moreover from new Some have "forEach_entry (h ! baseStats) (entries upgrades) = Inl err"
      by (simp split: sum.splits)
    ultimately show ?thesis
      using assms(1) old' computeEffectiveStats_returns [of "h ! baseStats" upgrades]
      by (simp add: computeEffectiveStats_def)
  next
    case None
    with new obtain s' where s': "forEach_entry (h ! baseStats) (entries upgrades) = Inr s'"
      and at: "h1 ! length h = s'"
      by (auto split: sum.splits)
    from assms(2) run None have res: "res = Inr (length h)"
      by (simp add: computeEffectiveStats_at_def alloc_def Let_def)
    from assms(2) run None have h': "h' = h1[length h := finish s']"
      by (auto simp: computeEffectiveStats_at_def alloc_def Let_def modify_def finish_def at len)
    show ?thesis
      using assms(1) old' len by (simp add: res h' computeEffectiveStats_def s')
  qed
qed

text \<open>
  Claim C3. \<open>computeEffectiveStats\<close> is to return a new record for every base record and
  every upgrade selection, leaving the base record unchanged. The base record is never
  written to, as shown above, but a record is not always returned: on the selection
  \<^verbatim>\<open>{ __defineGetter__: 1 }\<close> the table lookup finds the function every object inherits
  under that name, the guard lets it through, and the call throws a TypeError, on the
  store as on the contents.
\<close>

theorem inherited_name_throws:
  "computeEffectiveStats_at 0 (Some [(''__defineGetter__'', Fin 1)]) [defaultStats] =
     (Inl TypeError, [defaultStats, defaultStats]) \<and>
   computeEffectiveStats defaultStats (Some [(''__defineGetter__'', Fin 1)]) = Inl TypeError"
  by (simp add: computeEffectiveStats_at_def computeEffectiveStats_def alloc_def entries_def
        apply_entry_at_def apply_entry_def UPGRADE_EFFECTS_def Number_or_zero_def truthy_def
        js_gt_def Let_def)

end
